theory Spec2Isabelle
  imports Main "HOL-Library.Multiset"
begin

section \<open>Identifier generators (stdlib/refcount.js)\<close>














section \<open>The propagation kernel\<close>

subsection \<open>Values, user functions and errors\<close>

text \<open>
  JavaScript values, as far as the kernel looks at them: it tests a value for being
  \<open>undefined\<close>, for truthiness and for strict equality, and \<open>launch\<close> indexes a
  payload array. Objects are opaque and compared by identity, so an object is its
  address; an array is its address and its elements. Numbers are integers.
\<close>

datatype val = Undefined | Null | Bool bool | Num int | Str string | Arr nat "val list" | Obj nat

text \<open>The operator \<open>===\<close>: identity on arrays and objects, equality on primitives.\<close>

fun strict_eq :: "val \<Rightarrow> val \<Rightarrow> bool" where
  "strict_eq (Arr i xs) (Arr j ys) = (i = j)"
| "strict_eq x y = (x = y)"

text \<open>The conversion to boolean behind the operator \<open>!\<close>.\<close>

fun truthy :: "val \<Rightarrow> bool" where
  "truthy Undefined = False"
| "truthy Null = False"
| "truthy (Bool b) = b"
| "truthy (Num n) = (n \<noteq> 0)"
| "truthy (Str cs) = (cs \<noteq> [])"
| "truthy (Arr i xs) = True"
| "truthy (Obj i) = True"

text \<open>
  An uncaught JavaScript exception. The kernel itself only ever raises a \<open>TypeError\<close>
  (a property read on \<open>null\<close> or \<open>undefined\<close>).
\<close>

datatype error = TypeError

text \<open>
  The expression \<open>payload[i]\<close>: a \<open>TypeError\<close> on \<open>undefined\<close> and \<open>null\<close>, the element
  or \<open>undefined\<close> on an array, the character on a string, \<open>undefined\<close> otherwise.
\<close>

fun index_val :: "val \<Rightarrow> nat \<Rightarrow> error + val" where
  "index_val Undefined i = Inl TypeError"
| "index_val Null i = Inl TypeError"
| "index_val (Arr k xs) i = Inr (if i < length xs then xs ! i else Undefined)"
| "index_val (Str cs) i = Inr (if i < length cs then Str [cs ! i] else Undefined)"
| "index_val (Bool v) i = Inr Undefined"
| "index_val (Num v) i = Inr Undefined"
| "index_val (Obj v) i = Inr Undefined"

text \<open>
  A user function is called as \<open>fn(stack.value, local.scope, stack)\<close>. It either returns
  a value (\<open>Inr\<close>) or throws one (\<open>Inl\<close>). What it can read of the stack is the chain of
  frames with their three slots. Its own side effects (and a nested \<open>launch\<close> from inside
  it) are outside this model.
\<close>

datatype frame = Frame val val val "frame option"

type_synonym fn = "val \<Rightarrow> val \<Rightarrow> frame \<Rightarrow> val + val"

subsection \<open>Graph nodes, stacks and layers\<close>

datatype priorityTag = Child | Pure | Barrier | Sampler | Effect

datatype mov_from = FromStack | FromA | FromB | FromValue val | FromStore nat

datatype mov_to = ToStack | ToA | ToB | ToStore nat

datatype check_type = Defined | Changed nat

text \<open>
  A step \<open>{type, data}\<close> with the fields of \<open>data\<close> that its case of the interpreter
  reads: \<open>barrierID\<close> and \<open>priority\<close>; \<open>from\<close> (with the literal \<open>store\<close> or the id
  \<open>store.id\<close>) and \<open>to\<close> (with \<open>target.id\<close>); \<open>type\<close> (with \<open>store.id\<close>); \<open>fn\<close>.
\<close>

datatype step =
    SBarrier int priorityTag
  | SMov mov_from mov_to
  | SCheck check_type
  | SFilter fn
  | SRun fn
  | SCompute fn

text \<open>
  A graph node: its steps \<open>seq\<close>, its children \<open>next\<close>, its register table \<open>reg\<close> (from
  the id of a ref cell to the address of the cell) and its \<open>scope\<close>.
\<close>

datatype graph = Graph (seq_g: "step list") (next_g: "graph list") (reg_g: "nat \<Rightarrow> nat option") (scope_g: val)

datatype stack = Stack (value_s: val) (a_s: val) (b_s: val) (parent_s: "stack option") (node_s: graph)

fun frame_of :: "stack \<Rightarrow> frame" where
  "frame_of (Stack x y z p n) = Frame x y z (map_option frame_of p)"

record layer =
  idx_l :: nat
  stack_l :: stack
  type_l :: priorityTag
  id_l :: int

record local_flags =
  skip_lc :: bool
  fail_lc :: bool
  ref_lc :: string
  scope_lc :: val

subsection \<open>The queue: five buckets and one skew heap\<close>

text \<open>
  A bucket is a singly linked list (\<open>first\<close>, the \<open>right\<close> links, \<open>last\<close>) and a
  \<open>size\<close> kept beside it. The list is modelled by the sequence of its layers from
  \<open>first\<close> on.
\<close>

record bucket =
  items_b :: "layer list"
  size_b :: nat

datatype heap = HNull | HNode layer heap heap

text \<open>
  The state of the module: \<open>heap\<close>, \<open>queue\<close> (an array of exactly five buckets, read
  at the indices 0 to 4 only), \<open>barriers\<close>, \<open>alreadyStarted\<close>; the ref cells that the
  register tables point to (\<open>current\<close> of the cell at an address); and what
  \<open>console.error\<close> has been given.
\<close>

record engine =
  heap :: heap
  queue :: "nat \<Rightarrow> bucket"
  barriers :: "int set"
  alreadyStarted :: bool
  cells :: "nat \<Rightarrow> val"
  console :: "val list"

definition engine_init :: engine where
  "engine_init = \<lparr>heap = HNull, queue = (\<lambda>i. \<lparr>items_b = [], size_b = 0\<rparr>), barriers = {},
     alreadyStarted = False, cells = (\<lambda>i. Undefined), console = []\<rparr>"

function merge :: "heap \<Rightarrow> heap \<Rightarrow> heap" where
  "merge HNull b = b"
| "merge (HNode va la ra) HNull = HNode va la ra"
| "merge (HNode va la ra) (HNode vb lb rb) =
     (if (type_l va = type_l vb \<and> id_l va > id_l vb)
         \<or> (type_l va \<noteq> type_l vb \<and> type_l va = Sampler)
      then HNode vb (merge rb (HNode va la ra)) lb
      else HNode va (merge ra (HNode vb lb rb)) la)"
  by pat_completeness auto
termination
  by (relation "measure (\<lambda>(a, b). size a + size b)") auto

fun getPriority :: "priorityTag \<Rightarrow> nat" where
  "getPriority Child = 0"
| "getPriority Pure = 1"
| "getPriority Barrier = 2"
| "getPriority Sampler = 3"
| "getPriority Effect = 4"

text \<open>
  \<open>deleteMin\<close>: the loop over the bucket indices. The result is \<open>None\<close> for the
  \<open>undefined\<close> that ends the drain. Reading \<open>item.right\<close> of an empty list is a
  \<open>TypeError\<close>, and so is reading \<open>heap.v\<close> of the empty heap \<open>null\<close>. (\<open>HNull\<close>
  also stands for the sentinel \<open>0\<close> that \<open>merge\<close> returns for two empty children. The
  heap is read only when the bucket 2 or 3 has a positive size; no state that the functions
  of the module reach from its initial state has an empty heap then, see \<open>queue_wf\<close>.)
\<close>

fun deleteMin_from :: "nat list \<Rightarrow> engine \<Rightarrow> error + (layer \<times> engine) option" where
  "deleteMin_from [] s = Inr None"
| "deleteMin_from (i # is) s =
     (let list = queue s i in
      if size_b list > 0 then
        (if i = 2 \<or> i = 3 then
           (case heap s of
              HNull \<Rightarrow> Inl TypeError
            | HNode v l r \<Rightarrow>
                Inr (Some (v, s\<lparr>queue := (queue s)(i := list\<lparr>size_b := size_b list - 1\<rparr>),
                                 heap := merge l r\<rparr>)))
         else
           (case items_b list of
              [] \<Rightarrow> Inl TypeError
            | item # right \<Rightarrow>
                Inr (Some (item, s\<lparr>queue := (queue s)(i := \<lparr>items_b = right, size_b = size_b list - 1\<rparr>)\<rparr>))))
      else deleteMin_from is s)"

definition deleteMin :: "engine \<Rightarrow> error + (layer \<times> engine) option" where
  "deleteMin s = deleteMin_from [0, 1, 2, 3, 4] s"

text \<open>
  \<open>pushHeap\<close>. Appending to a bucket whose \<open>size\<close> is not 0 writes \<open>bucket.last.right\<close>,
  a \<open>TypeError\<close> when the list is empty.
\<close>

definition pushHeap :: "nat \<Rightarrow> stack \<Rightarrow> priorityTag \<Rightarrow> int \<Rightarrow> engine \<Rightarrow> error + engine" where
  "pushHeap idx stack type id0 s =
     (let priority = getPriority type;
          bucket = queue s priority;
          v = \<lparr>idx_l = idx, stack_l = stack, type_l = type, id_l = id0\<rparr>
      in if priority = 2 \<or> priority = 3 then
           Inr (s\<lparr>heap := merge (heap s) (HNode v HNull HNull),
                  queue := (queue s)(priority := bucket\<lparr>size_b := size_b bucket + 1\<rparr>)\<rparr>)
         else if size_b bucket = 0 then
           Inr (s\<lparr>queue := (queue s)(priority := \<lparr>items_b = [v], size_b = size_b bucket + 1\<rparr>)\<rparr>)
         else if items_b bucket = [] then Inl TypeError
         else
           Inr (s\<lparr>queue := (queue s)(priority :=
                  \<lparr>items_b = items_b bucket @ [v], size_b = size_b bucket + 1\<rparr>)\<rparr>))"

definition pushFirstHeapItem :: "priorityTag \<Rightarrow> graph \<Rightarrow> stack option \<Rightarrow> val \<Rightarrow> engine \<Rightarrow> error + engine" where
  "pushFirstHeapItem type node parent v s = pushHeap 0 (Stack v Null Null parent node) type 0 s"

subsection \<open>The interpreter\<close>

text \<open>
  Modelled from the spec: \<open>readRef\<close> is imported from \<open>./stdlib\<close>, which is not among
  the sources. The spec gives \<open>readRef(cell) -> current\<close>. The interpreter applies it to
  \<open>graph.reg[id]\<close>; for an id that the table does not hold it reads a property of
  \<open>undefined\<close>, a \<open>TypeError\<close>.
\<close>

definition readRef :: "graph \<Rightarrow> nat \<Rightarrow> engine \<Rightarrow> error + val" where
  "readRef graph rid s = (case reg_g graph rid of None \<Rightarrow> Inl TypeError | Some c \<Rightarrow> Inr (cells s c))"

text \<open>
  The assignment \<open>graph.reg[id].current = value\<close> of the case \<open>mov\<close>, a \<open>TypeError\<close>
  for an id that the table does not hold.
\<close>

definition writeRef :: "graph \<Rightarrow> nat \<Rightarrow> val \<Rightarrow> engine \<Rightarrow> error + engine" where
  "writeRef graph rid x s =
     (case reg_g graph rid of None \<Rightarrow> Inl TypeError | Some c \<Rightarrow> Inr (s\<lparr>cells := (cells s)(c := x)\<rparr>))"

text \<open>
  Modelled from the spec: \<open>getGraph\<close> is imported from \<open>./stdlib\<close>, which is not among
  the sources. The spec speaks of node handles given to \<open>launch\<close>; a node handle is the
  graph node itself.
\<close>

definition getGraph :: "graph \<Rightarrow> graph" where
  "getGraph u = u"

text \<open>
  \<open>tryRun\<close>: the result of the user function, or, after a throw, \<open>console.error(err)\<close>,
  \<open>local.fail = true\<close> and the \<open>undefined\<close> of a function that ends without \<open>return\<close>.
\<close>

definition tryRun :: "local_flags \<Rightarrow> fn \<Rightarrow> stack \<Rightarrow> engine \<Rightarrow> val \<times> local_flags \<times> engine" where
  "tryRun loc f stack s =
     (case f (value_s stack) (scope_lc loc) (frame_of stack) of
        Inr res \<Rightarrow> (res, loc, s)
      | Inl err \<Rightarrow> (Undefined, loc\<lparr>fail_lc := True\<rparr>, s\<lparr>console := console s @ [err]\<rparr>))"

fun set_value :: "stack \<Rightarrow> val \<Rightarrow> stack" where
  "set_value (Stack x y z p n) w = Stack w y z p n"

fun set_a :: "stack \<Rightarrow> val \<Rightarrow> stack" where
  "set_a (Stack x y z p n) w = Stack x w z p n"

fun set_b :: "stack \<Rightarrow> val \<Rightarrow> stack" where
  "set_b (Stack x y z p n) w = Stack x y w p n"

text \<open>
  One pass through the \<open>switch\<close> of the interpreter ends in \<open>continue mem\<close> or leaves
  the \<open>switch\<close> with the flags, the stack and the state as they are then.
\<close>

datatype flow = ContinueMem engine | Break local_flags stack engine

fun mov_read :: "mov_from \<Rightarrow> graph \<Rightarrow> stack \<Rightarrow> engine \<Rightarrow> error + val" where
  "mov_read FromStack graph stack s = Inr (value_s stack)"
| "mov_read FromA graph stack s = Inr (a_s stack)"
| "mov_read FromB graph stack s = Inr (b_s stack)"
| "mov_read (FromValue lit) graph stack s = Inr lit"
| "mov_read (FromStore rid) graph stack s = readRef graph rid s"

fun mov_write :: "mov_to \<Rightarrow> val \<Rightarrow> graph \<Rightarrow> local_flags \<Rightarrow> stack \<Rightarrow> engine \<Rightarrow> error + flow" where
  "mov_write ToStack x graph loc stack s = Inr (Break loc (set_value stack x) s)"
| "mov_write ToA x graph loc stack s = Inr (Break loc (set_a stack x) s)"
| "mov_write ToB x graph loc stack s = Inr (Break loc (set_b stack x) s)"
| "mov_write (ToStore rid) x graph loc stack s =
     (case writeRef graph rid x s of Inl e \<Rightarrow> Inl e | Inr s' \<Rightarrow> Inr (Break loc stack s'))"

text \<open>The case \<open>compute\<close>, which the case \<open>run\<close> falls through to.\<close>

definition compute_case :: "fn \<Rightarrow> local_flags \<Rightarrow> stack \<Rightarrow> engine \<Rightarrow> error + flow" where
  "compute_case f loc stack s =
     (case tryRun loc f stack s of (res, loc', s') \<Rightarrow> Inr (Break loc' (set_value stack res) s'))"

text \<open>
  The body of the \<open>switch\<close> for the step at \<open>stepn\<close> of a layer that started at \<open>idx\<close>
  with priority \<open>type\<close>.
\<close>

fun run_step :: "nat \<Rightarrow> priorityTag \<Rightarrow> graph \<Rightarrow> nat \<Rightarrow> step \<Rightarrow> local_flags \<Rightarrow> stack \<Rightarrow> engine
    \<Rightarrow> error + flow" where
  "run_step idx type graph stepn (SBarrier id0 priority) loc stack s =
     (if stepn \<noteq> idx \<or> type \<noteq> priority then
        (if id0 \<notin> barriers s then
           (case pushHeap stepn stack priority id0 (s\<lparr>barriers := insert id0 (barriers s)\<rparr>) of
              Inl e \<Rightarrow> Inl e
            | Inr s' \<Rightarrow> Inr (ContinueMem s'))
         else Inr (ContinueMem s))
      else Inr (Break loc stack (s\<lparr>barriers := barriers s - {id0}\<rparr>)))"
| "run_step idx type graph stepn (SMov src dst) loc stack s =
     (case mov_read src graph stack s of
        Inl e \<Rightarrow> Inl e
      | Inr x \<Rightarrow> mov_write dst x graph loc stack s)"
| "run_step idx type graph stepn (SCheck Defined) loc stack s =
     Inr (Break (loc\<lparr>skip_lc := (value_s stack = Undefined)\<rparr>) stack s)"
| "run_step idx type graph stepn (SCheck (Changed rid)) loc stack s =
     (case readRef graph rid s of
        Inl e \<Rightarrow> Inl e
      | Inr x \<Rightarrow> Inr (Break (loc\<lparr>skip_lc := strict_eq (value_s stack) x\<rparr>) stack s))"
| "run_step idx type graph stepn (SFilter f) loc stack s =
     (case tryRun loc f stack s of
        (res, loc', s') \<Rightarrow> Inr (Break (loc'\<lparr>skip_lc := \<not> truthy res\<rparr>) stack s'))"
| "run_step idx type graph stepn (SRun f) loc stack s =
     (if stepn \<noteq> idx \<or> type \<noteq> Effect then
        (case pushHeap stepn stack Effect 0 s of
           Inl e \<Rightarrow> Inl e
         | Inr s' \<Rightarrow> Inr (ContinueMem s'))
      else compute_case f loc stack s)"
| "run_step idx type graph stepn (SCompute f) loc stack s = compute_case f loc stack s"

text \<open>
  The \<open>for\<close> loop over the steps, from \<open>stepn\<close> on, with \<open>meta.stop\<close> as \<open>stop\<close>. It
  ends by \<open>continue mem\<close> (\<open>Aborted\<close>) or by its condition (\<open>Finished\<close>, with
  \<open>meta.stop\<close> and the stack as they are then).
\<close>

datatype outcome = Aborted engine | Finished bool stack engine

function steps :: "nat \<Rightarrow> priorityTag \<Rightarrow> graph \<Rightarrow> nat \<Rightarrow> local_flags \<Rightarrow> bool \<Rightarrow> stack \<Rightarrow> engine
    \<Rightarrow> error + outcome" where
  "steps idx type graph stepn loc stop stack s =
     (if stepn < length (seq_g graph) \<and> \<not> stop then
        (case run_step idx type graph stepn (seq_g graph ! stepn) loc stack s of
           Inl e \<Rightarrow> Inl e
         | Inr (ContinueMem s') \<Rightarrow> Inr (Aborted s')
         | Inr (Break loc' stack' s') \<Rightarrow>
             steps idx type graph (stepn + 1) loc' (fail_lc loc' \<or> skip_lc loc') stack' s')
      else Inr (Finished stop stack s))"
  by pat_completeness auto
termination
  by (relation "measure (\<lambda>(idx, type, graph, stepn, rest). length (seq_g graph) - stepn)") auto

declare steps.simps [simp del]

subsection \<open>The driver\<close>

text \<open>The loop over \<open>graph.next\<close> that queues the children of a node that completed.\<close>

fun pushChildren :: "graph list \<Rightarrow> stack \<Rightarrow> engine \<Rightarrow> error + engine" where
  "pushChildren [] stack s = Inr s"
| "pushChildren (g # gs) stack s =
     (case pushFirstHeapItem Child g (Some stack) (value_s stack) s of
        Inl e \<Rightarrow> Inl e
      | Inr s' \<Rightarrow> pushChildren gs stack s')"

text \<open>
  One iteration of the loop \<open>mem\<close> of \<open>exec\<close>: \<open>None\<close> when \<open>deleteMin\<close> returns
  \<open>undefined\<close>, else the layer taken, \<open>meta.stop\<close> and the state at the end of the
  iteration. At a \<open>continue mem\<close> the flag \<open>meta.stop\<close> is false: the \<open>for\<close> loop has
  just tested it.
\<close>

definition exec_iter :: "bool \<Rightarrow> engine \<Rightarrow> error + (layer \<times> bool \<times> engine) option" where
  "exec_iter stop s =
     (case deleteMin s of
        Inl e \<Rightarrow> Inl e
      | Inr None \<Rightarrow> Inr None
      | Inr (Some (v, s1)) \<Rightarrow>
          (let graph = node_s (stack_l v);
               loc = \<lparr>skip_lc = False, fail_lc = False, ref_lc = [], scope_lc = scope_g graph\<rparr>
           in case steps (idx_l v) (type_l v) graph (idx_l v) loc stop (stack_l v) s1 of
                Inl e \<Rightarrow> Inl e
              | Inr (Aborted s2) \<Rightarrow> Inr (Some (v, False, s2))
              | Inr (Finished stop' stack' s2) \<Rightarrow>
                  (case (if \<not> stop' then pushChildren (next_g graph) stack' s2 else Inr s2) of
                     Inl e \<Rightarrow> Inl e
                   | Inr s3 \<Rightarrow> Inr (Some (v, False, s3)))))"

text \<open>
  The loop \<open>mem\<close>, a \<open>while\<close> loop, returns an option: \<open>None\<close> would be a drain that
  never returns, \<open>Some (Inl e)\<close> is one that an exception leaves, \<open>Some (Inr s)\<close> one
  that ends with the queue empty. (On a consistent queue it always returns:
  \<open>exec_loop_terminates\<close> below.)
\<close>

partial_function (option) exec_loop :: "bool \<Rightarrow> engine \<Rightarrow> (error + engine) option" where
  "exec_loop stop s =
     (case exec_iter stop s of
        Inl e \<Rightarrow> Some (Inl e)
      | Inr None \<Rightarrow> Some (Inr s)
      | Inr (Some (v, stop', s')) \<Rightarrow> exec_loop stop' s')"

declare exec_loop.simps [code]

definition exec :: "engine \<Rightarrow> (error + engine) option" where
  "exec s =
     (let lastStartedState = alreadyStarted s in
      case exec_loop False (s\<lparr>alreadyStarted := True\<rparr>) of
        None \<Rightarrow> None
      | Some (Inl e) \<Rightarrow> Some (Inl e)
      | Some (Inr s') \<Rightarrow> Some (Inr (s'\<lparr>alreadyStarted := lastStartedState\<rparr>)))"

text \<open>
  The first argument of \<open>launch\<close>: a node handle, an array of node handles, or a
  descriptor \<open>{target, params, defer}\<close> whose \<open>target\<close> is one of the two.
\<close>

datatype target = Node graph | Nodes "graph list"

datatype launch_arg = Handle target | Descriptor target val bool

text \<open>The loop of \<open>launch\<close> over an array of units, from index \<open>i\<close> on.\<close>

fun seed_units :: "graph list \<Rightarrow> nat \<Rightarrow> val \<Rightarrow> engine \<Rightarrow> error + engine" where
  "seed_units [] i payload s = Inr s"
| "seed_units (u # us) i payload s =
     (case index_val payload i of
        Inl e \<Rightarrow> Inl e
      | Inr x \<Rightarrow>
          (case pushFirstHeapItem Pure (getGraph u) None x s of
             Inl e \<Rightarrow> Inl e
           | Inr s' \<Rightarrow> seed_units us (i + 1) payload s'))"

fun seed :: "target \<Rightarrow> val \<Rightarrow> engine \<Rightarrow> error + engine" where
  "seed (Nodes us) payload s = seed_units us 0 payload s"
| "seed (Node u) payload s = pushFirstHeapItem Pure (getGraph u) None payload s"

text \<open>
  \<open>launch\<close>: the reassignment of the three parameters from a descriptor, the seeding,
  and the drain unless \<open>upsert && alreadyStarted\<close>.
\<close>

fun unpack :: "launch_arg \<Rightarrow> val \<Rightarrow> bool \<Rightarrow> target \<times> val \<times> bool" where
  "unpack (Descriptor tgt params defer) payload upsert = (tgt, params, defer)"
| "unpack (Handle unit0) payload upsert = (unit0, payload, upsert)"

definition launch :: "launch_arg \<Rightarrow> val \<Rightarrow> bool \<Rightarrow> engine \<Rightarrow> (error + engine) option" where
  "launch arg payload0 upsert0 s =
     (case unpack arg payload0 upsert0 of
        (unit0, payload, upsert) \<Rightarrow>
          (case seed unit0 payload s of
             Inl e \<Rightarrow> Some (Inl e)
           | Inr s1 \<Rightarrow> if upsert \<and> alreadyStarted s1 then Some (Inr s1) else exec s1))"

section \<open>Notions used to state the properties\<close>

subsection \<open>What is queued, and when the queue is consistent\<close>

fun heap_layers :: "heap \<Rightarrow> layer multiset" where
  "heap_layers HNull = {#}"
| "heap_layers (HNode v l r) = add_mset v (heap_layers l + heap_layers r)"

text \<open>The two priorities whose layers go to the heap.\<close>

definition heap_class :: "priorityTag \<Rightarrow> bool" where
  "heap_class t = (t = Barrier \<or> t = Sampler)"

text \<open>The comparison of \<open>merge\<close>: \<open>x\<close> stays above \<open>y\<close> when \<open>merge\<close> does not swap them.\<close>

definition heap_le :: "layer \<Rightarrow> layer \<Rightarrow> bool" where
  "heap_le x y = (\<not> ((type_l x = type_l y \<and> id_l x > id_l y)
                      \<or> (type_l x \<noteq> type_l y \<and> type_l x = Sampler)))"

fun heap_ordered :: "heap \<Rightarrow> bool" where
  "heap_ordered HNull = True"
| "heap_ordered (HNode v l r) =
     ((\<forall>x \<in># heap_layers l + heap_layers r. heap_le v x) \<and> heap_ordered l \<and> heap_ordered r)"

text \<open>
  A list bucket is consistent when its \<open>size\<close> is the length of its list and its layers
  have its priority. The queue is consistent when the three list buckets are, the heap is
  ordered and holds layers of the two heap priorities only, and the sizes of the buckets 2
  and 3 count the \<open>barrier\<close> and the \<open>sampler\<close> layers of the heap. The state of a
  freshly loaded module is consistent, and \<open>pushHeap\<close> and \<open>deleteMin\<close> keep it so.
\<close>

definition fifo_wf :: "engine \<Rightarrow> nat \<Rightarrow> bool" where
  "fifo_wf s i = (size_b (queue s i) = length (items_b (queue s i))
                  \<and> (\<forall>x \<in> set (items_b (queue s i)). getPriority (type_l x) = i))"

definition queue_wf :: "engine \<Rightarrow> bool" where
  "queue_wf s =
     (fifo_wf s 0 \<and> fifo_wf s 1 \<and> fifo_wf s 4
      \<and> heap_ordered (heap s)
      \<and> (\<forall>x \<in># heap_layers (heap s). heap_class (type_l x))
      \<and> size_b (queue s 2) = size (filter_mset (\<lambda>x. type_l x = Barrier) (heap_layers (heap s)))
      \<and> size_b (queue s 3) = size (filter_mset (\<lambda>x. type_l x = Sampler) (heap_layers (heap s))))"

definition queued :: "engine \<Rightarrow> layer multiset" where
  "queued s = mset (items_b (queue s 0)) + mset (items_b (queue s 1)) + mset (items_b (queue s 4))
              + heap_layers (heap s)"

text \<open>
  \<open>precedes x y\<close>: the layer \<open>x\<close> is of a class with a smaller number than \<open>y\<close>, or both
  are of the same heap class and \<open>x\<close> has the smaller id.
\<close>

definition precedes :: "layer \<Rightarrow> layer \<Rightarrow> bool" where
  "precedes x y =
     (getPriority (type_l x) < getPriority (type_l y)
      \<or> (type_l x = type_l y \<and> heap_class (type_l x) \<and> id_l x < id_l y))"

text \<open>The two branches of \<open>deleteMin\<close>, named.\<close>

definition take_fifo :: "nat \<Rightarrow> engine \<Rightarrow> error + (layer \<times> engine) option" where
  "take_fifo i s =
     (case items_b (queue s i) of
        [] \<Rightarrow> Inl TypeError
      | item # right \<Rightarrow>
          Inr (Some (item, s\<lparr>queue := (queue s)(i := \<lparr>items_b = right, size_b = size_b (queue s i) - 1\<rparr>)\<rparr>)))"

definition take_heap :: "nat \<Rightarrow> engine \<Rightarrow> error + (layer \<times> engine) option" where
  "take_heap i s =
     (case heap s of
        HNull \<Rightarrow> Inl TypeError
      | HNode v l r \<Rightarrow>
          Inr (Some (v, s\<lparr>queue := (queue s)(i := (queue s i)\<lparr>size_b := size_b (queue s i) - 1\<rparr>),
                           heap := merge l r\<rparr>)))"

subsection \<open>Sequences of queue operations\<close>

text \<open>
  A client of the queue: any sequence of calls of \<open>pushHeap\<close> and \<open>deleteMin\<close>.
  \<open>run_ops\<close> performs them and returns the layers that the calls of \<open>deleteMin\<close>
  returned, in order; \<open>pushed\<close> lists the layers that the calls of \<open>pushHeap\<close> made.
\<close>

datatype qop = Push nat stack priorityTag int | DeleteMin

fun run_ops :: "qop list \<Rightarrow> engine \<Rightarrow> error + (layer list \<times> engine)" where
  "run_ops [] s = Inr ([], s)"
| "run_ops (Push i st t d # ops) s =
     (case pushHeap i st t d s of Inl e \<Rightarrow> Inl e | Inr s' \<Rightarrow> run_ops ops s')"
| "run_ops (DeleteMin # ops) s =
     (case deleteMin s of
        Inl e \<Rightarrow> Inl e
      | Inr None \<Rightarrow> run_ops ops s
      | Inr (Some (v, s')) \<Rightarrow>
          (case run_ops ops s' of Inl e \<Rightarrow> Inl e | Inr (out, s'') \<Rightarrow> Inr (v # out, s'')))"

fun pushed :: "qop list \<Rightarrow> layer list" where
  "pushed [] = []"
| "pushed (Push i st t d # ops) = \<lparr>idx_l = i, stack_l = st, type_l = t, id_l = d\<rparr> # pushed ops"
| "pushed (DeleteMin # ops) = pushed ops"

subsection \<open>The drain, iteration by iteration\<close>


fun drain_trace :: "nat \<Rightarrow> bool \<Rightarrow> engine \<Rightarrow> layer list" where
  "drain_trace 0 stop s = []"
| "drain_trace (Suc n) stop s =
     (case exec_iter stop s of
        Inl e \<Rightarrow> []
      | Inr None \<Rightarrow> []
      | Inr (Some (v, stop', s')) \<Rightarrow> v # drain_trace n stop' s')"

subsection \<open>Barriers in flight\<close>

text \<open>
  The graphs that the graph-construction layer builds give a barrier step one of the two
  heap priorities. \<open>graph_ok\<close> says so of a node and of all nodes below it.
\<close>

fun step_ok :: "step \<Rightarrow> bool" where
  "step_ok (SBarrier b p) = heap_class p"
| "step_ok st = True"

fun graph_ok :: "graph \<Rightarrow> bool" where
  "graph_ok (Graph sq nx rg sc) = ((\<forall>st \<in> set sq. step_ok st) \<and> (\<forall>g \<in> set nx. graph_ok g))"

text \<open>The barrier ids of the layers in the heap, with their multiplicities.\<close>

definition pending_ids :: "engine \<Rightarrow> int multiset" where
  "pending_ids s = image_mset id_l (heap_layers (heap s))"

text \<open>A layer that a barrier step pushed: it resumes at that step, with its id and priority.\<close>

definition at_barrier :: "layer \<Rightarrow> bool" where
  "at_barrier x = (idx_l x < length (seq_g (node_s (stack_l x)))
      \<and> seq_g (node_s (stack_l x)) ! idx_l x = SBarrier (id_l x) (type_l x))"

text \<open>
  The invariant of the barrier registry, between two iterations of the drain
  (\<open>barrier_inv\<close>, which is \<open>inv_with {}\<close>): the queue is consistent, every queued node is
  \<open>graph_ok\<close>, every layer of the heap was pushed by a barrier step, and an id has one
  layer in the heap if it is registered and none otherwise. Inside an iteration that took
  the layer of id \<open>b\<close> from the heap, \<open>b\<close> is still registered until the barrier step
  has deleted it: \<open>inv_with {b}\<close>.
\<close>

definition inv_with :: "int set \<Rightarrow> engine \<Rightarrow> bool" where
  "inv_with E s =
     (queue_wf s
      \<and> (\<forall>x \<in># queued s. graph_ok (node_s (stack_l x)))
      \<and> (\<forall>x \<in># heap_layers (heap s). at_barrier x)
      \<and> (\<forall>b. count (pending_ids s) b = (if b \<in> barriers s \<and> b \<notin> E then 1 else 0)))"

definition barrier_inv :: "engine \<Rightarrow> bool" where
  "barrier_inv s = inv_with {} s"

fun outcome_inv :: "graph \<Rightarrow> outcome \<Rightarrow> bool" where
  "outcome_inv g (Aborted s) = barrier_inv s"
| "outcome_inv g (Finished stop st s) = (barrier_inv s \<and> node_s st = g)"

fun flow_inv :: "graph \<Rightarrow> flow \<Rightarrow> bool" where
  "flow_inv g (ContinueMem s) = barrier_inv s"
| "flow_inv g (Break loc st s) = (barrier_inv s \<and> node_s st = g)"

subsection \<open>What an iteration does to the queue\<close>

text \<open>
  \<open>grows s s'\<close>: the queue of \<open>s'\<close> is consistent and holds every layer that the
  queue of \<open>s\<close> holds. The interpreter never takes a layer out of the queue.
\<close>

definition grows :: "engine \<Rightarrow> engine \<Rightarrow> bool" where
  "grows s s' = (queue_wf s' \<and> queued s \<subseteq># queued s')"

fun flow_state :: "flow \<Rightarrow> engine" where
  "flow_state (ContinueMem s) = s"
| "flow_state (Break loc st s) = s"

fun outcome_state :: "outcome \<Rightarrow> engine" where
  "outcome_state (Aborted s) = s"
| "outcome_state (Finished stop st s) = s"

subsection \<open>A measure for the drain\<close>

text \<open>
  A graph node is a finite tree of nodes, so a drain ends. The weight of a layer bounds the
  weight of all layers that its iteration pushes: the weights of fresh layers for the
  children, two for each step still to run, one for the iteration itself and one more if
  its first step pushes the layer back (\<open>requeues\<close>).
\<close>

fun fresh_weight :: "graph \<Rightarrow> nat" where
  "fresh_weight (Graph sq nx rg sc) = sum_list (map fresh_weight nx) + 2 * length sq + 2"

definition children_weight :: "graph \<Rightarrow> nat" where
  "children_weight g = sum_list (map fresh_weight (next_g g))"

fun requeues_at :: "step \<Rightarrow> priorityTag \<Rightarrow> bool" where
  "requeues_at (SBarrier b p) t = (t \<noteq> p)"
| "requeues_at (SRun f) t = (t \<noteq> Effect)"
| "requeues_at st t = False"

definition requeues :: "layer \<Rightarrow> bool" where
  "requeues x = (idx_l x < length (seq_g (node_s (stack_l x)))
                 \<and> requeues_at (seq_g (node_s (stack_l x)) ! idx_l x) (type_l x))"

definition layer_weight :: "layer \<Rightarrow> nat" where
  "layer_weight x = children_weight (node_s (stack_l x))
                    + 2 * (length (seq_g (node_s (stack_l x))) - idx_l x) + 1
                    + (if requeues x then 1 else 0)"

definition drain_weight :: "engine \<Rightarrow> nat" where
  "drain_weight s = sum_mset (image_mset layer_weight (queued s))"

subsection \<open>What \<open>launch\<close> seeds\<close>

text \<open>
  The layer that \<open>pushFirstHeapItem('pure', node, null, x)\<close> makes; \<open>payload[i]\<close> where
  it does not throw; the state with layers appended to the bucket of priority \<open>pure\<close>;
  and the layers that \<open>launch\<close> seeds for a unit and a payload.
\<close>

definition seed_layer :: "graph \<Rightarrow> val \<Rightarrow> layer" where
  "seed_layer g x = \<lparr>idx_l = 0, stack_l = Stack x Null Null None g, type_l = Pure, id_l = 0\<rparr>"

definition payload_at :: "val \<Rightarrow> nat \<Rightarrow> val" where
  "payload_at p i = (case index_val p i of Inr x \<Rightarrow> x | Inl e \<Rightarrow> Undefined)"

definition append_pure :: "layer list \<Rightarrow> engine \<Rightarrow> engine" where
  "append_pure xs s = s\<lparr>queue := (queue s)(1 := \<lparr>items_b = items_b (queue s 1) @ xs,
                                                 size_b = size_b (queue s 1) + length xs\<rparr>)\<rparr>"

fun seed_layers :: "target \<Rightarrow> val \<Rightarrow> layer list" where
  "seed_layers (Nodes gs) p = map (\<lambda>k. seed_layer (gs ! k) (payload_at p k)) [0..<length gs]"
| "seed_layers (Node g) p = [seed_layer g p]"

subsection \<open>Observations and example graphs\<close>





definition queue_sizes :: "(error + engine) option \<Rightarrow> nat list" where
  "queue_sizes r = (case r of Some (Inr s) \<Rightarrow> map (\<lambda>i. size_b (queue s i)) [0..<5] | _ \<Rightarrow> [])"

text \<open>
  The examples. \<open>ex_leaf\<close> has no steps and no children. \<open>ex_counter\<close> is a fan-in node:
  a barrier of id 7 at priority \<open>barrier\<close>, then it adds 1 to the ref cell 0 (making it 1
  when the cell holds no number yet), so the cell counts how often the node fired.
  \<open>ex_fanin\<close> feeds \<open>ex_counter\<close> through two children; \<open>ex_late\<close> feeds it directly and
  through \<open>ex_effect\<close>, whose \<open>run\<close> step is deferred to priority \<open>effect\<close>.
  \<open>ex_thrower\<close> has a \<open>compute\<close> step whose function throws, and a child.
\<close>

definition ex_leaf :: graph where
  "ex_leaf = Graph [] [] (\<lambda>i. None) Null"

definition ex_layer :: "priorityTag \<Rightarrow> int \<Rightarrow> layer" where
  "ex_layer t d = \<lparr>idx_l = 0, stack_l = Stack Undefined Null Null None ex_leaf, type_l = t, id_l = d\<rparr>"

definition ex_pushes :: "qop list" where
  "ex_pushes = [Push 0 (Stack Undefined Null Null None ex_leaf) Effect 0,
                Push 0 (Stack Undefined Null Null None ex_leaf) Sampler 5,
                Push 0 (Stack Undefined Null Null None ex_leaf) Barrier 9,
                Push 0 (Stack Undefined Null Null None ex_leaf) Barrier 3,
                Push 0 (Stack Undefined Null Null None ex_leaf) Child 0,
                Push 0 (Stack Undefined Null Null None ex_leaf) Pure 0]"

definition ex_queue :: engine where
  "ex_queue = (case run_ops ex_pushes engine_init of Inr (out, s) \<Rightarrow> s | Inl e \<Rightarrow> engine_init)"








definition ex_fifo_ops :: "qop list" where
  "ex_fifo_ops = [Push 0 (Stack (Num 1) Null Null None ex_leaf) Child 0,
                  Push 0 (Stack (Num 2) Null Null None ex_leaf) Child 0,
                  DeleteMin,
                  Push 0 (Stack (Num 3) Null Null None ex_leaf) Child 0,
                  DeleteMin, DeleteMin]"

section \<open>Properties of the identifier generators\<close>













section \<open>Properties of the queue\<close>

subsection \<open>The skew heap\<close>

lemma heap_layers_merge: "heap_layers (merge a b) = heap_layers a + heap_layers b"
  by (induction a b rule: merge.induct) auto

lemma heap_le_trans:
  "heap_class (type_l x) \<Longrightarrow> heap_class (type_l y) \<Longrightarrow> heap_class (type_l z) \<Longrightarrow>
   heap_le x y \<Longrightarrow> heap_le y z \<Longrightarrow> heap_le x z"
  by (auto simp: heap_le_def heap_class_def)

lemma heap_le_total: "\<not> heap_le x y \<Longrightarrow> heap_le y x"
  by (auto simp: heap_le_def)

lemma merge_node:
  "merge (HNode va la ra) (HNode vb lb rb) =
     (if heap_le va vb then HNode va (merge ra (HNode vb lb rb)) la
      else HNode vb (merge rb (HNode va la ra)) lb)"
  by (auto simp: heap_le_def)

lemma heap_ordered_merge:
  "heap_ordered a \<Longrightarrow> heap_ordered b \<Longrightarrow>
   \<forall>x \<in># heap_layers a + heap_layers b. heap_class (type_l x) \<Longrightarrow>
   heap_ordered (merge a b)"
proof (induction a b rule: merge.induct)
  case (1 b)
  then show ?case by simp
next
  case (2 va la ra)
  then show ?case by simp
next
  case (3 va la ra vb lb rb)
  have cls: "\<And>x. x \<in># heap_layers (HNode va la ra) + heap_layers (HNode vb lb rb) \<Longrightarrow> heap_class (type_l x)"
    using "3.prems"(3) by blast
  show ?case
  proof (cases "heap_le va vb")
    case False
    then have le: "heap_le vb va" by (rule heap_le_total)
    have "heap_ordered (merge rb (HNode va la ra))"
      using 3 False by (auto simp: heap_le_def)
    moreover have "\<forall>x \<in># heap_layers (merge rb (HNode va la ra)) + heap_layers lb. heap_le vb x"
    proof
      fix x assume "x \<in># heap_layers (merge rb (HNode va la ra)) + heap_layers lb"
      then consider "x \<in># heap_layers rb + heap_layers lb" | "x = va" | "x \<in># heap_layers la + heap_layers ra"
        by (auto simp: heap_layers_merge)
      then show "heap_le vb x"
      proof cases
        case 1
        then show ?thesis using "3.prems"(2) by auto
      next
        case 2
        then show ?thesis using le by simp
      next
        case 3
        then have "heap_le va x" using "3.prems"(1) by auto
        moreover have "heap_class (type_l x)" "heap_class (type_l va)" "heap_class (type_l vb)"
          using cls 3 by auto
        ultimately show ?thesis using le heap_le_trans by blast
      qed
    qed
    moreover have "heap_ordered lb" using "3.prems"(2) by simp
    ultimately show ?thesis using False by (simp add: merge_node del: merge.simps)
  next
    case True
    have "heap_ordered (merge ra (HNode vb lb rb))"
      using 3 True by (auto simp: heap_le_def)
    moreover have "\<forall>x \<in># heap_layers (merge ra (HNode vb lb rb)) + heap_layers la. heap_le va x"
    proof
      fix x assume "x \<in># heap_layers (merge ra (HNode vb lb rb)) + heap_layers la"
      then consider "x \<in># heap_layers ra + heap_layers la" | "x = vb" | "x \<in># heap_layers lb + heap_layers rb"
        by (auto simp: heap_layers_merge)
      then show "heap_le va x"
      proof cases
        case 1
        then show ?thesis using "3.prems"(1) by auto
      next
        case 2
        then show ?thesis using True by simp
      next
        case 3
        then have "heap_le vb x" using "3.prems"(2) by auto
        moreover have "heap_class (type_l x)" "heap_class (type_l va)" "heap_class (type_l vb)"
          using cls 3 by auto
        ultimately show ?thesis using True heap_le_trans by blast
      qed
    qed
    moreover have "heap_ordered la" using "3.prems"(1) by simp
    ultimately show ?thesis using True by (simp add: merge_node del: merge.simps)
  qed
qed

subsection \<open>\<open>deleteMin\<close> and \<open>pushHeap\<close> on a consistent queue\<close>

lemma deleteMin_unfold:
  "deleteMin s =
     (if size_b (queue s 0) > 0 then take_fifo 0 s
      else if size_b (queue s 1) > 0 then take_fifo 1 s
      else if size_b (queue s 2) > 0 then take_heap 2 s
      else if size_b (queue s 3) > 0 then take_heap 3 s
      else if size_b (queue s 4) > 0 then take_fifo 4 s
      else Inr None)"
  by (simp add: deleteMin_def Let_def take_fifo_def take_heap_def)

lemma queued_empty:
  "queue_wf s \<Longrightarrow> size_b (queue s 0) = 0 \<Longrightarrow> size_b (queue s 1) = 0 \<Longrightarrow> size_b (queue s 2) = 0 \<Longrightarrow>
   size_b (queue s 3) = 0 \<Longrightarrow> size_b (queue s 4) = 0 \<Longrightarrow> queued s = {#}"
proof -
  assume wf: "queue_wf s" and z: "size_b (queue s 0) = 0" "size_b (queue s 1) = 0" "size_b (queue s 2) = 0"
    "size_b (queue s 3) = 0" "size_b (queue s 4) = 0"
  have "heap_layers (heap s) = {#}"
  proof (rule multiset_eqI)
    fix x
    show "count (heap_layers (heap s)) x = count {#} x"
    proof (cases "x \<in># heap_layers (heap s)")
      case True
      then have "heap_class (type_l x)" using wf by (simp add: queue_wf_def)
      then have "x \<in># filter_mset (\<lambda>x. type_l x = Barrier) (heap_layers (heap s))
               \<or> x \<in># filter_mset (\<lambda>x. type_l x = Sampler) (heap_layers (heap s))"
        using True by (auto simp: heap_class_def)
      moreover have "filter_mset (\<lambda>x. type_l x = Barrier) (heap_layers (heap s)) = {#}"
        "filter_mset (\<lambda>x. type_l x = Sampler) (heap_layers (heap s)) = {#}"
        using wf z by (simp_all add: queue_wf_def)
      ultimately show ?thesis by simp
    next
      case False
      then show ?thesis by (simp add: not_in_iff)
    qed
  qed
  then show ?thesis using wf z by (simp add: queued_def queue_wf_def fifo_wf_def)
qed

lemma queued_size_pos:
  assumes "queue_wf s" "x \<in># queued s"
  shows "size_b (queue s (getPriority (type_l x))) > 0"
proof -
  consider "x \<in> set (items_b (queue s 0))" | "x \<in> set (items_b (queue s 1))"
    | "x \<in> set (items_b (queue s 4))" | "x \<in># heap_layers (heap s)"
    using assms(2) by (auto simp: queued_def)
  then show ?thesis
  proof cases
    case 1
    then have "getPriority (type_l x) = 0" "items_b (queue s 0) \<noteq> []"
      using assms(1) by (auto simp: queue_wf_def fifo_wf_def)
    then show ?thesis using assms(1) by (simp add: queue_wf_def fifo_wf_def)
  next
    case 2
    then have "getPriority (type_l x) = 1" "items_b (queue s 1) \<noteq> []"
      using assms(1) by (auto simp: queue_wf_def fifo_wf_def)
    then show ?thesis using assms(1) by (simp add: queue_wf_def fifo_wf_def)
  next
    case 3
    then have "getPriority (type_l x) = 4" "items_b (queue s 4) \<noteq> []"
      using assms(1) by (auto simp: queue_wf_def fifo_wf_def)
    then show ?thesis using assms(1) by (simp add: queue_wf_def fifo_wf_def)
  next
    case 4
    then have "heap_class (type_l x)" using assms(1) by (simp add: queue_wf_def)
    then consider "type_l x = Barrier" | "type_l x = Sampler" by (auto simp: heap_class_def)
    then show ?thesis
    proof cases
      case 1
      then have "x \<in># filter_mset (\<lambda>x. type_l x = Barrier) (heap_layers (heap s))"
        using 4 by simp
      then have "size (filter_mset (\<lambda>x. type_l x = Barrier) (heap_layers (heap s))) > 0"
        by (metis empty_iff nonempty_has_size set_mset_empty)
      then show ?thesis using 1 assms(1) by (simp add: queue_wf_def)
    next
      case 2
      then have "x \<in># filter_mset (\<lambda>x. type_l x = Sampler) (heap_layers (heap s))"
        using 4 by simp
      then have "size (filter_mset (\<lambda>x. type_l x = Sampler) (heap_layers (heap s))) > 0"
        by (metis empty_iff nonempty_has_size set_mset_empty)
      then show ?thesis using 2 assms(1) by (simp add: queue_wf_def)
    qed
  qed
qed

lemma getPriority_cases: "getPriority t = 0 \<or> getPriority t = 1 \<or> getPriority t = 2 \<or> getPriority t = 3 \<or> getPriority t = 4"
  by (cases t) auto

lemma getPriority_heap_class: "heap_class t \<longleftrightarrow> (getPriority t = 2 \<or> getPriority t = 3)"
  by (cases t) (auto simp: heap_class_def)

lemma getPriority_inj: "getPriority t = getPriority u \<Longrightarrow> t = u"
  by (cases t; cases u) auto

text \<open>When the buckets below \<open>i\<close> are empty, nothing queued has a priority below \<open>i\<close>.\<close>

lemma queued_priority_ge:
  assumes "queue_wf s" "x \<in># queued s" "\<forall>j<i. size_b (queue s j) = 0"
  shows "i \<le> getPriority (type_l x)"
proof (rule ccontr)
  assume "\<not> i \<le> getPriority (type_l x)"
  then have "size_b (queue s (getPriority (type_l x))) = 0" using assms(3) by simp
  then show False using queued_size_pos [OF assms(1,2)] by simp
qed

lemma take_fifo_wf:
  assumes wf: "queue_wf s" and i: "i = 0 \<or> i = 1 \<or> i = 4" and pos: "size_b (queue s i) > 0"
    and low: "\<forall>j<i. size_b (queue s j) = 0"
  shows "\<exists>v rest. items_b (queue s i) = v # rest
           \<and> take_fifo i s = Inr (Some (v, s\<lparr>queue := (queue s)(i := \<lparr>items_b = rest, size_b = length rest\<rparr>)\<rparr>))
           \<and> getPriority (type_l v) = i
           \<and> queue_wf (s\<lparr>queue := (queue s)(i := \<lparr>items_b = rest, size_b = length rest\<rparr>)\<rparr>)
           \<and> queued s = add_mset v (queued (s\<lparr>queue := (queue s)(i := \<lparr>items_b = rest, size_b = length rest\<rparr>)\<rparr>))
           \<and> (\<forall>x \<in># queued s. \<not> precedes x v)"
proof -
  have fw: "fifo_wf s i" using wf i by (auto simp: queue_wf_def)
  then obtain v rest where vr: "items_b (queue s i) = v # rest"
    using pos by (cases "items_b (queue s i)") (auto simp: fifo_wf_def)
  let ?s' = "s\<lparr>queue := (queue s)(i := \<lparr>items_b = rest, size_b = length rest\<rparr>)\<rparr>"
  have sz: "size_b (queue s i) - Suc 0 = length rest" using fw vr by (simp add: fifo_wf_def)
  have 1: "take_fifo i s = Inr (Some (v, ?s'))" by (simp add: take_fifo_def vr sz)
  have 2: "getPriority (type_l v) = i" using fw vr by (simp add: fifo_wf_def)
  have 3: "queue_wf ?s'" using wf i fw vr by (auto simp: queue_wf_def fifo_wf_def)
  have 4: "queued s = add_mset v (queued ?s')" using i vr by (auto simp: queued_def)
  have 5: "\<forall>x \<in># queued s. \<not> precedes x v"
  proof
    fix x assume x: "x \<in># queued s"
    have "i \<le> getPriority (type_l x)" using queued_priority_ge [OF wf x low] .
    moreover have "\<not> heap_class (type_l v)" using 2 i by (auto simp: getPriority_heap_class)
    ultimately show "\<not> precedes x v" using 2 by (auto simp: precedes_def)
  qed
  show ?thesis using vr 1 2 3 4 5 by blast
qed

lemma filter_size_pos_ex: "size (filter_mset P M) > 0 \<Longrightarrow> \<exists>x. x \<in># M \<and> P x"
proof (rule ccontr)
  assume a: "size (filter_mset P M) > 0" and b: "\<not> (\<exists>x. x \<in># M \<and> P x)"
  have e: "filter_mset P M = {#}" unfolding filter_mset_eq_mempty_iff using b by blast
  show False using a unfolding e by simp
qed

lemma heap_root_type:
  assumes ord: "heap_ordered (HNode v l r)"
    and cls: "\<forall>x \<in># heap_layers (HNode v l r). heap_class (type_l x)"
  shows "type_l v = Barrier \<longleftrightarrow> (\<exists>x \<in># heap_layers (HNode v l r). type_l x = Barrier)"
proof
  assume "type_l v = Barrier"
  then show "\<exists>x \<in># heap_layers (HNode v l r). type_l x = Barrier" by auto
next
  assume "\<exists>x \<in># heap_layers (HNode v l r). type_l x = Barrier"
  then obtain x where x: "x \<in># heap_layers (HNode v l r)" "type_l x = Barrier" by blast
  show "type_l v = Barrier"
  proof (cases "x = v")
    case True
    then show ?thesis using x by simp
  next
    case False
    then have "heap_le v x" using ord x by auto
    moreover have "heap_class (type_l v)" using cls by simp
    ultimately show ?thesis using x by (auto simp: heap_le_def heap_class_def)
  qed
qed

lemma take_heap_wf:
  assumes wf: "queue_wf s" and i: "i = 2 \<or> i = 3" and pos: "size_b (queue s i) > 0"
    and low: "\<forall>j<i. size_b (queue s j) = 0"
  shows "\<exists>v l r. heap s = HNode v l r
           \<and> take_heap i s = Inr (Some (v, s\<lparr>queue := (queue s)(i := (queue s i)\<lparr>size_b := size_b (queue s i) - 1\<rparr>), heap := merge l r\<rparr>))
           \<and> getPriority (type_l v) = i
           \<and> queue_wf (s\<lparr>queue := (queue s)(i := (queue s i)\<lparr>size_b := size_b (queue s i) - 1\<rparr>), heap := merge l r\<rparr>)
           \<and> queued s = add_mset v (queued (s\<lparr>queue := (queue s)(i := (queue s i)\<lparr>size_b := size_b (queue s i) - 1\<rparr>), heap := merge l r\<rparr>))
           \<and> (\<forall>x \<in># queued s. \<not> precedes x v)"
proof -
  have ord: "heap_ordered (heap s)" and cls: "\<forall>x \<in># heap_layers (heap s). heap_class (type_l x)"
    and s2: "size_b (queue s 2) = size (filter_mset (\<lambda>x. type_l x = Barrier) (heap_layers (heap s)))"
    and s3: "size_b (queue s 3) = size (filter_mset (\<lambda>x. type_l x = Sampler) (heap_layers (heap s)))"
    using wf by (simp_all add: queue_wf_def)
  have "heap_layers (heap s) \<noteq> {#}" using i pos s2 s3 by auto
  then obtain v l r where h: "heap s = HNode v l r" by (cases "heap s") auto
  let ?s' = "s\<lparr>queue := (queue s)(i := (queue s i)\<lparr>size_b := size_b (queue s i) - 1\<rparr>), heap := merge l r\<rparr>"
  have 1: "take_heap i s = Inr (Some (v, ?s'))" by (simp add: take_heap_def h)
  have rt: "type_l v = Barrier \<longleftrightarrow> (\<exists>x \<in># heap_layers (HNode v l r). type_l x = Barrier)"
    using heap_root_type ord cls h by simp
  have vcls: "heap_class (type_l v)" using cls h by simp
  have 2: "getPriority (type_l v) = i"
  proof (cases "i = 2")
    case True
    then have "\<exists>x. x \<in># heap_layers (heap s) \<and> type_l x = Barrier"
      using pos s2 filter_size_pos_ex [of "\<lambda>x. type_l x = Barrier" "heap_layers (heap s)"] by simp
    then have "type_l v = Barrier" using rt h by auto
    then show ?thesis using True by simp
  next
    case False
    then have i3: "i = 3" using i by simp
    then have "size_b (queue s 2) = 0" using low by simp
    then have "filter_mset (\<lambda>x. type_l x = Barrier) (heap_layers (heap s)) = {#}" using s2 by simp
    then have "type_l v \<noteq> Barrier" using h by auto
    then have "type_l v = Sampler" using vcls by (simp add: heap_class_def)
    then show ?thesis using i3 by simp
  qed
  have ord': "heap_ordered (merge l r)"
    using heap_ordered_merge [of l r] ord cls h by auto
  have 3: "queue_wf ?s'"
  proof (cases "i = 2")
    case True
    then have "type_l v = Barrier" using 2 getPriority_inj [of "type_l v" Barrier] by simp
    then show ?thesis using wf h ord' True
      by (auto simp: queue_wf_def fifo_wf_def heap_layers_merge)
  next
    case False
    then have i3: "i = 3" using i by simp
    then have "type_l v = Sampler" using 2 getPriority_inj [of "type_l v" Sampler] by simp
    then show ?thesis using wf h ord' i3
      by (auto simp: queue_wf_def fifo_wf_def heap_layers_merge)
  qed
  have 4: "queued s = add_mset v (queued ?s')" using i h by (auto simp: queued_def heap_layers_merge)
  have 5: "\<forall>x \<in># queued s. \<not> precedes x v"
  proof
    fix x assume x: "x \<in># queued s"
    have ge: "i \<le> getPriority (type_l x)" using queued_priority_ge [OF wf x low] .
    have "\<not> (type_l x = type_l v \<and> id_l x < id_l v)"
    proof
      assume a: "type_l x = type_l v \<and> id_l x < id_l v"
      then have "getPriority (type_l x) = i" using 2 by simp
      then have "x \<notin> set (items_b (queue s 0))" "x \<notin> set (items_b (queue s 1))" "x \<notin> set (items_b (queue s 4))"
        using wf i by (auto simp: queue_wf_def fifo_wf_def)
      then have "x \<in># heap_layers (heap s)" using x by (auto simp: queued_def)
      then have "x = v \<or> heap_le v x" using ord h by auto
      then show False using a by (auto simp: heap_le_def)
    qed
    then show "\<not> precedes x v" using ge 2 by (auto simp: precedes_def)
  qed
  show ?thesis using h 1 2 3 4 5 by blast
qed

lemma deleteMin_wf_cases:
  assumes wf: "queue_wf s"
  shows "(deleteMin s = Inr None \<and> queued s = {#})
    \<or> (\<exists>i v rest. (i = 0 \<or> i = 1 \<or> i = 4) \<and> items_b (queue s i) = v # rest
           \<and> deleteMin s = Inr (Some (v, s\<lparr>queue := (queue s)(i := \<lparr>items_b = rest, size_b = length rest\<rparr>)\<rparr>))
           \<and> getPriority (type_l v) = i
           \<and> queue_wf (s\<lparr>queue := (queue s)(i := \<lparr>items_b = rest, size_b = length rest\<rparr>)\<rparr>)
           \<and> queued s = add_mset v (queued (s\<lparr>queue := (queue s)(i := \<lparr>items_b = rest, size_b = length rest\<rparr>)\<rparr>))
           \<and> (\<forall>x \<in># queued s. \<not> precedes x v))
    \<or> (\<exists>i v l r. (i = 2 \<or> i = 3) \<and> heap s = HNode v l r
           \<and> deleteMin s = Inr (Some (v, s\<lparr>queue := (queue s)(i := (queue s i)\<lparr>size_b := size_b (queue s i) - 1\<rparr>), heap := merge l r\<rparr>))
           \<and> getPriority (type_l v) = i
           \<and> queue_wf (s\<lparr>queue := (queue s)(i := (queue s i)\<lparr>size_b := size_b (queue s i) - 1\<rparr>), heap := merge l r\<rparr>)
           \<and> queued s = add_mset v (queued (s\<lparr>queue := (queue s)(i := (queue s i)\<lparr>size_b := size_b (queue s i) - 1\<rparr>), heap := merge l r\<rparr>))
           \<and> (\<forall>x \<in># queued s. \<not> precedes x v))"
proof -
  consider (b0) "size_b (queue s 0) > 0"
    | (b1) "size_b (queue s 0) = 0" "size_b (queue s 1) > 0"
    | (b2) "size_b (queue s 0) = 0" "size_b (queue s 1) = 0" "size_b (queue s 2) > 0"
    | (b3) "size_b (queue s 0) = 0" "size_b (queue s 1) = 0" "size_b (queue s 2) = 0" "size_b (queue s 3) > 0"
    | (b4) "size_b (queue s 0) = 0" "size_b (queue s 1) = 0" "size_b (queue s 2) = 0" "size_b (queue s 3) = 0"
           "size_b (queue s 4) > 0"
    | (none) "size_b (queue s 0) = 0" "size_b (queue s 1) = 0" "size_b (queue s 2) = 0" "size_b (queue s 3) = 0"
           "size_b (queue s 4) = 0"
    by (metis neq0_conv)
  then show ?thesis
  proof cases
    case b0
    have "deleteMin s = take_fifo 0 s" using b0 by (simp add: deleteMin_unfold)
    moreover have "\<forall>j<0::nat. size_b (queue s j) = 0" by simp
    ultimately show ?thesis using take_fifo_wf [OF wf _ b0, of ] by (metis (no_types, lifting))
  next
    case b1
    have "deleteMin s = take_fifo 1 s" using b1 by (simp add: deleteMin_unfold)
    moreover have "\<forall>j<1::nat. size_b (queue s j) = 0" using b1 by simp
    ultimately show ?thesis using take_fifo_wf [OF wf _ b1(2)] by (metis (no_types, lifting))
  next
    case b2
    have "deleteMin s = take_heap 2 s" using b2 by (simp add: deleteMin_unfold)
    moreover have "\<forall>j<2::nat. size_b (queue s j) = 0"
    proof (intro allI impI)
      fix j :: nat assume "j < 2"
      then have "j = 0 \<or> j = 1" by arith
      then show "size_b (queue s j) = 0" using b2 by auto
    qed
    ultimately show ?thesis using take_heap_wf [OF wf _ b2(3)] by (metis (no_types, lifting))
  next
    case b3
    have "deleteMin s = take_heap 3 s" using b3 by (simp add: deleteMin_unfold)
    moreover have "\<forall>j<3::nat. size_b (queue s j) = 0"
    proof (intro allI impI)
      fix j :: nat assume "j < 3"
      then have "j = 0 \<or> j = 1 \<or> j = 2" by arith
      then show "size_b (queue s j) = 0" using b3 by auto
    qed
    ultimately show ?thesis using take_heap_wf [OF wf _ b3(4)] by (metis (no_types, lifting))
  next
    case b4
    have "deleteMin s = take_fifo 4 s" using b4 by (simp add: deleteMin_unfold)
    moreover have "\<forall>j<4::nat. size_b (queue s j) = 0"
    proof (intro allI impI)
      fix j :: nat assume "j < 4"
      then have "j = 0 \<or> j = 1 \<or> j = 2 \<or> j = 3" by arith
      then show "size_b (queue s j) = 0" using b4 by auto
    qed
    ultimately show ?thesis using take_fifo_wf [OF wf _ b4(5)] by (metis (no_types, lifting))
  next
    case none
    have "deleteMin s = Inr None" using none by (simp add: deleteMin_unfold)
    then show ?thesis using queued_empty [OF wf none] by simp
  qed
qed

lemma deleteMin_not_error: "queue_wf s \<Longrightarrow> deleteMin s \<noteq> Inl e"
  using deleteMin_wf_cases [of s] by auto

lemma deleteMin_None_empty: "queue_wf s \<Longrightarrow> deleteMin s = Inr None \<Longrightarrow> queued s = {#}"
  using deleteMin_wf_cases [of s] by auto

lemma deleteMin_Some_props:
  assumes "queue_wf s" "deleteMin s = Inr (Some (v, s'))"
  shows "queue_wf s'" "queued s = add_mset v (queued s')" "\<forall>x \<in># queued s. \<not> precedes x v"
  using deleteMin_wf_cases [OF assms(1)] assms(2) by auto

lemma deleteMin_Some_frame:
  assumes "queue_wf s" "deleteMin s = Inr (Some (v, s'))"
  shows "barriers s' = barriers s" "cells s' = cells s" "console s' = console s"
    "alreadyStarted s' = alreadyStarted s"
  using deleteMin_wf_cases [OF assms(1)] assms(2) by auto

lemma deleteMin_Some_fifo:
  assumes "queue_wf s" "deleteMin s = Inr (Some (v, s'))" "j = 0 \<or> j = 1 \<or> j = 4"
  shows "items_b (queue s j) = (if getPriority (type_l v) = j then [v] else []) @ items_b (queue s' j)"
  using deleteMin_wf_cases [OF assms(1)] assms(2,3) by auto

lemma deleteMin_Some_heap:
  assumes "queue_wf s" "deleteMin s = Inr (Some (v, s'))"
  shows "heap_layers (heap s) = (if heap_class (type_l v) then {#v#} else {#}) + heap_layers (heap s')"
  using deleteMin_wf_cases [OF assms(1)] assms(2)
  by (auto simp: getPriority_heap_class heap_layers_merge)

lemma pushHeap_wf:
  assumes wf: "queue_wf s"
  shows "\<exists>s'. pushHeap i st t d s = Inr s' \<and> queue_wf s'
     \<and> queued s' = add_mset \<lparr>idx_l = i, stack_l = st, type_l = t, id_l = d\<rparr> (queued s)
     \<and> barriers s' = barriers s \<and> cells s' = cells s \<and> console s' = console s
     \<and> alreadyStarted s' = alreadyStarted s
     \<and> (\<forall>j. j = 0 \<or> j = 1 \<or> j = 4 \<longrightarrow> items_b (queue s' j) = items_b (queue s j) @
            (if getPriority t = j then [\<lparr>idx_l = i, stack_l = st, type_l = t, id_l = d\<rparr>] else []))
     \<and> heap_layers (heap s') = heap_layers (heap s) +
            (if heap_class t then {#\<lparr>idx_l = i, stack_l = st, type_l = t, id_l = d\<rparr>#} else {#})"
proof (cases "heap_class t")
  case True
  let ?v = "\<lparr>idx_l = i, stack_l = st, type_l = t, id_l = d\<rparr>"
  let ?s' = "s\<lparr>heap := merge (heap s) (HNode ?v HNull HNull),
              queue := (queue s)(getPriority t := (queue s (getPriority t))\<lparr>size_b := size_b (queue s (getPriority t)) + 1\<rparr>)\<rparr>"
  have p: "getPriority t = 2 \<or> getPriority t = 3" using True by (simp add: getPriority_heap_class)
  then have 1: "pushHeap i st t d s = Inr ?s'" by (auto simp: pushHeap_def Let_def)
  have "heap_ordered (merge (heap s) (HNode ?v HNull HNull))"
    using wf True by (intro heap_ordered_merge) (auto simp: queue_wf_def)
  then have 2: "queue_wf ?s'" using wf True p
    by (cases t) (auto simp: queue_wf_def fifo_wf_def heap_layers_merge heap_class_def)
  have 3: "queued ?s' = add_mset ?v (queued s)" using p by (auto simp: queued_def heap_layers_merge)
  show ?thesis using 1 2 3 True p by (auto simp: heap_layers_merge)
next
  case False
  let ?v = "\<lparr>idx_l = i, stack_l = st, type_l = t, id_l = d\<rparr>"
  let ?p = "getPriority t"
  let ?s' = "s\<lparr>queue := (queue s)(?p := \<lparr>items_b = items_b (queue s ?p) @ [?v], size_b = size_b (queue s ?p) + 1\<rparr>)\<rparr>"
  have p: "?p = 0 \<or> ?p = 1 \<or> ?p = 4" using False getPriority_cases [of t] by (auto simp: getPriority_heap_class)
  then have fw: "fifo_wf s ?p" using wf by (auto simp: queue_wf_def)
  have 1: "pushHeap i st t d s = Inr ?s'"
    using p fw by (auto simp: pushHeap_def Let_def fifo_wf_def)
  have 2: "queue_wf ?s'" using wf p fw by (auto simp: queue_wf_def fifo_wf_def)
  have 3: "queued ?s' = add_mset ?v (queued s)" using p by (auto simp: queued_def)
  show ?thesis using 1 2 3 False p by auto
qed

subsection \<open>Sequences of operations\<close>

lemma engine_init_wf: "queue_wf engine_init"
  by (simp add: queue_wf_def fifo_wf_def engine_init_def)

lemma run_ops_order:
  assumes "queue_wf s" "x \<in># queued s" "precedes x y" "run_ops ops s = Inr (out, s')" "y \<in> set out"
  shows "\<exists>pre post. out = pre @ x # post \<and> y \<notin> set pre"
  using assms
proof (induction ops arbitrary: s out)
  case Nil
  then show ?case by simp
next
  case (Cons op ops)
  show ?case
  proof (cases op)
    case (Push i st t d)
    obtain s1 where s1: "pushHeap i st t d s = Inr s1" "queue_wf s1"
      "queued s1 = add_mset \<lparr>idx_l = i, stack_l = st, type_l = t, id_l = d\<rparr> (queued s)"
      using pushHeap_wf [OF Cons.prems(1), of i st t d] by blast
    then have "run_ops ops s1 = Inr (out, s')" using Cons.prems(4) Push by simp
    moreover have "x \<in># queued s1" using s1(3) Cons.prems(2) by simp
    ultimately show ?thesis using Cons.IH [of s1 out] s1(2) Cons.prems(3,5) by blast
  next
    case DeleteMin
    show ?thesis
    proof (cases "deleteMin s")
      case (Inl e)
      then show ?thesis using Cons.prems(4) DeleteMin by simp
    next
      case (Inr res)
      show ?thesis
      proof (cases res)
        case None
        then have "run_ops ops s = Inr (out, s')" using Cons.prems(4) DeleteMin Inr by simp
        then show ?thesis using Cons.IH [of s out] Cons.prems by blast
      next
        case (Some p)
        obtain v s1 where p: "p = (v, s1)" by (cases p)
        have dm: "deleteMin s = Inr (Some (v, s1))" using Inr Some p by simp
        obtain out1 where o: "run_ops ops s1 = Inr (out1, s')" "out = v # out1"
          using Cons.prems(4) DeleteMin dm by (auto split: sum.splits)
        have wf1: "queue_wf s1" and q: "queued s = add_mset v (queued s1)"
          and mn: "\<forall>z \<in># queued s. \<not> precedes z v"
          using deleteMin_Some_props [OF Cons.prems(1) dm] by auto
        show ?thesis
        proof (cases "v = x")
          case True
          then have "out = [] @ x # out1 \<and> y \<notin> set []" using o by simp
          then show ?thesis by blast
        next
          case False
          then have xq: "x \<in># queued s1" using q Cons.prems(2) by auto
          have "v \<noteq> y" using mn Cons.prems(2,3) by auto
          then have "y \<in> set out1" using o Cons.prems(5) by auto
          then obtain pre post where "out1 = pre @ x # post" "y \<notin> set pre"
            using Cons.IH [OF wf1 xq Cons.prems(3) o(1)] by blast
          then have "out = (v # pre) @ x # post \<and> y \<notin> set (v # pre)"
            using o \<open>v \<noteq> y\<close> by auto
          then show ?thesis by blast
        qed
      qed
    qed
  qed
qed

lemma run_ops_fifo:
  assumes "queue_wf s" "run_ops ops s = Inr (out, s')" "c = Child \<or> c = Pure \<or> c = Effect"
  shows "filter (\<lambda>x. type_l x = c) out @ items_b (queue s' (getPriority c))
         = items_b (queue s (getPriority c)) @ filter (\<lambda>x. type_l x = c) (pushed ops)"
  using assms(1,2)
proof (induction ops arbitrary: s out)
  case Nil
  then show ?case by simp
next
  case (Cons op ops)
  have j: "getPriority c = 0 \<or> getPriority c = 1 \<or> getPriority c = 4" using assms(3) by auto
  show ?case
  proof (cases op)
    case (Push i st t d)
    let ?v = "\<lparr>idx_l = i, stack_l = st, type_l = t, id_l = d\<rparr>"
    obtain s1 where s1: "pushHeap i st t d s = Inr s1" "queue_wf s1"
      "items_b (queue s1 (getPriority c)) = items_b (queue s (getPriority c)) @
            (if getPriority t = getPriority c then [?v] else [])"
      using pushHeap_wf [OF Cons.prems(1), of i st t d] j by blast
    then have r: "run_ops ops s1 = Inr (out, s')" using Cons.prems(2) Push by simp
    have "(getPriority t = getPriority c) = (t = c)" using getPriority_inj by auto
    then show ?thesis using Cons.IH [OF s1(2) r] s1(3) Push by auto
  next
    case DeleteMin
    show ?thesis
    proof (cases "deleteMin s")
      case (Inl e)
      then show ?thesis using Cons.prems(2) DeleteMin by simp
    next
      case (Inr res)
      show ?thesis
      proof (cases res)
        case None
        then have "run_ops ops s = Inr (out, s')" using Cons.prems(2) DeleteMin Inr by simp
        then show ?thesis using Cons.IH [of s out] Cons.prems DeleteMin by simp
      next
        case (Some p)
        obtain v s1 where p: "p = (v, s1)" by (cases p)
        have dm: "deleteMin s = Inr (Some (v, s1))" using Inr Some p by simp
        obtain out1 where o: "run_ops ops s1 = Inr (out1, s')" "out = v # out1"
          using Cons.prems(2) DeleteMin dm by (auto split: sum.splits)
        have wf1: "queue_wf s1" using deleteMin_Some_props [OF Cons.prems(1) dm] by auto
        have it: "items_b (queue s (getPriority c)) =
            (if getPriority (type_l v) = getPriority c then [v] else []) @ items_b (queue s1 (getPriority c))"
          using deleteMin_Some_fifo [OF Cons.prems(1) dm j] .
        have "(getPriority (type_l v) = getPriority c) = (type_l v = c)" using getPriority_inj by auto
        then show ?thesis using Cons.IH [OF wf1 o(1)] it o(2) DeleteMin by auto
      qed
    qed
  qed
qed

section \<open>Properties of the interpreter and the drain\<close>

subsection \<open>The barrier registry is kept in step with the heap\<close>

lemma queue_wf_frame:
  "heap s' = heap s \<Longrightarrow> queue s' = queue s \<Longrightarrow> queue_wf s' = queue_wf s"
  by (simp add: queue_wf_def fifo_wf_def)

lemma inv_with_frame:
  "heap s' = heap s \<Longrightarrow> queue s' = queue s \<Longrightarrow> barriers s' = barriers s \<Longrightarrow> inv_with E s' = inv_with E s"
  by (simp add: inv_with_def queue_wf_def fifo_wf_def queued_def pending_ids_def)

lemma graph_ok_seq: "graph_ok g \<Longrightarrow> n < length (seq_g g) \<Longrightarrow> step_ok (seq_g g ! n)"
  by (cases g) auto

lemma graph_ok_next: "graph_ok g \<Longrightarrow> c \<in> set (next_g g) \<Longrightarrow> graph_ok c"
  by (cases g) auto

lemma node_set_value [simp]: "node_s (set_value st x) = node_s st"
  by (cases st) simp
lemma node_set_a [simp]: "node_s (set_a st x) = node_s st"
  by (cases st) simp
lemma node_set_b [simp]: "node_s (set_b st x) = node_s st"
  by (cases st) simp

lemma tryRun_frame:
  "tryRun loc f st s = (res, loc', s') \<Longrightarrow> heap s' = heap s \<and> queue s' = queue s \<and> barriers s' = barriers s \<and> alreadyStarted s' = alreadyStarted s \<and> cells s' = cells s"
  by (auto simp: tryRun_def split: sum.splits)

lemma inv_withI:
  "queue_wf s \<Longrightarrow> (\<And>x. x \<in># queued s \<Longrightarrow> graph_ok (node_s (stack_l x))) \<Longrightarrow>
   (\<And>x. x \<in># heap_layers (heap s) \<Longrightarrow> at_barrier x) \<Longrightarrow>
   (\<And>b. count (pending_ids s) b = (if b \<in> barriers s \<and> b \<notin> E then 1 else 0)) \<Longrightarrow> inv_with E s"
  by (simp add: inv_with_def)

lemma pushHeap_props:
  assumes "queue_wf s" "pushHeap i st t d s = Inr s'"
  shows "queue_wf s'"
    "queued s' = add_mset \<lparr>idx_l = i, stack_l = st, type_l = t, id_l = d\<rparr> (queued s)"
    "barriers s' = barriers s" "cells s' = cells s" "console s' = console s"
    "alreadyStarted s' = alreadyStarted s"
    "heap_layers (heap s') = heap_layers (heap s) +
            (if heap_class t then {#\<lparr>idx_l = i, stack_l = st, type_l = t, id_l = d\<rparr>#} else {#})"
proof -
  obtain s2 where s2: "pushHeap i st t d s = Inr s2" "queue_wf s2"
    "queued s2 = add_mset \<lparr>idx_l = i, stack_l = st, type_l = t, id_l = d\<rparr> (queued s)"
    "barriers s2 = barriers s" "cells s2 = cells s" "console s2 = console s"
    "alreadyStarted s2 = alreadyStarted s"
    "heap_layers (heap s2) = heap_layers (heap s) +
            (if heap_class t then {#\<lparr>idx_l = i, stack_l = st, type_l = t, id_l = d\<rparr>#} else {#})"
    using pushHeap_wf [OF assms(1), of i st t d] by blast
  have e: "s2 = s'" using s2(1) assms(2) by simp
  show "queue_wf s'"
    "queued s' = add_mset \<lparr>idx_l = i, stack_l = st, type_l = t, id_l = d\<rparr> (queued s)"
    "barriers s' = barriers s" "cells s' = cells s" "console s' = console s"
    "alreadyStarted s' = alreadyStarted s"
    "heap_layers (heap s') = heap_layers (heap s) +
            (if heap_class t then {#\<lparr>idx_l = i, stack_l = st, type_l = t, id_l = d\<rparr>#} else {#})"
    using s2(2-) unfolding e by blast+
qed

lemma inv_withD:
  assumes "inv_with E s"
  shows "queue_wf s" "\<And>x. x \<in># queued s \<Longrightarrow> graph_ok (node_s (stack_l x))"
    "\<And>x. x \<in># heap_layers (heap s) \<Longrightarrow> at_barrier x"
    "\<And>b. count (pending_ids s) b = (if b \<in> barriers s \<and> b \<notin> E then 1 else 0)"
  using assms by (simp_all add: inv_with_def)

lemma pushHeap_inv_fifo:
  assumes "barrier_inv s" "graph_ok (node_s st)" "\<not> heap_class t" "pushHeap i st t d s = Inr s'"
  shows "barrier_inv s'"
proof -
  let ?v = "\<lparr>idx_l = i, stack_l = st, type_l = t, id_l = d\<rparr>"
  have inv: "inv_with {} s" using assms(1) by (simp add: barrier_inv_def)
  note d = inv_withD [OF inv]
  have p: "queue_wf s'" "queued s' = add_mset ?v (queued s)" "barriers s' = barriers s"
    "heap_layers (heap s') = heap_layers (heap s)"
    using pushHeap_props [OF d(1) assms(4)] assms(3) by simp_all
  have "inv_with {} s'"
  proof (rule inv_withI)
    show "queue_wf s'" by (rule p(1))
  next
    fix x assume "x \<in># queued s'"
    then have "x = ?v \<or> x \<in># queued s" unfolding p(2) by simp
    then show "graph_ok (node_s (stack_l x))" using d(2) assms(2) by auto
  next
    fix x assume "x \<in># heap_layers (heap s')"
    then show "at_barrier x" unfolding p(4) by (rule d(3))
  next
    fix b show "count (pending_ids s') b = (if b \<in> barriers s' \<and> b \<notin> {} then 1 else 0)"
      using d(4) [of b] by (simp add: pending_ids_def p(3,4))
  qed
  then show ?thesis by (simp add: barrier_inv_def)
qed

lemma pushHeap_inv_barrier:
  assumes "barrier_inv s" "graph_ok (node_s st)" "heap_class t" "b \<notin> barriers s"
    "i < length (seq_g (node_s st))" "seq_g (node_s st) ! i = SBarrier b t"
    "pushHeap i st t b (s\<lparr>barriers := insert b (barriers s)\<rparr>) = Inr s'"
  shows "barrier_inv s'"
proof -
  let ?v = "\<lparr>idx_l = i, stack_l = st, type_l = t, id_l = b\<rparr>"
  let ?s1 = "s\<lparr>barriers := insert b (barriers s)\<rparr>"
  have inv: "inv_with {} s" using assms(1) by (simp add: barrier_inv_def)
  note d = inv_withD [OF inv]
  have wf: "queue_wf ?s1" using d(1) queue_wf_frame [of ?s1 s] by simp
  have p: "queue_wf s'" "queued s' = add_mset ?v (queued ?s1)" "barriers s' = insert b (barriers s)"
    "heap_layers (heap s') = heap_layers (heap ?s1) + {#?v#}"
    using pushHeap_props [OF wf assms(7)] assms(3) by simp_all
  have q1: "queued ?s1 = queued s" "heap ?s1 = heap s" by (simp_all add: queued_def)
  have ab: "at_barrier ?v" using assms(5,6) by (simp add: at_barrier_def)
  have cnt: "count (pending_ids s) b = 0" using d(4) [of b] assms(4) by simp
  have "inv_with {} s'"
  proof (rule inv_withI)
    show "queue_wf s'" by (rule p(1))
  next
    fix x assume "x \<in># queued s'"
    then have "x = ?v \<or> x \<in># queued s" unfolding p(2) q1 by simp
    then show "graph_ok (node_s (stack_l x))" using d(2) assms(2) by auto
  next
    fix x assume "x \<in># heap_layers (heap s')"
    then have "x = ?v \<or> x \<in># heap_layers (heap s)" unfolding p(4) q1 by simp
    then show "at_barrier x" using d(3) ab by auto
  next
    fix c show "count (pending_ids s') c = (if c \<in> barriers s' \<and> c \<notin> {} then 1 else 0)"
      using d(4) [of c] cnt assms(4) by (auto simp add: pending_ids_def p(3,4) q1)
  qed
  then show ?thesis by (simp add: barrier_inv_def)
qed

lemma barrier_inv_frame:
  "heap s' = heap s \<Longrightarrow> queue s' = queue s \<Longrightarrow> barriers s' = barriers s \<Longrightarrow> barrier_inv s' = barrier_inv s"
  unfolding barrier_inv_def by (rule inv_with_frame)

lemma compute_case_inv:
  assumes "barrier_inv s" "node_s stack = graph" "compute_case f loc stack s = Inr fl"
  shows "flow_inv graph fl"
proof -
  obtain res loc' s' where t: "tryRun loc f stack s = (res, loc', s')" by (cases "tryRun loc f stack s")
  then have "barrier_inv s'" using tryRun_frame [OF t] barrier_inv_frame [of s' s] assms(1) by simp
  moreover have "fl = Break loc' (set_value stack res) s'" using assms(3) t by (simp add: compute_case_def)
  ultimately show ?thesis using assms(2) by simp
qed

lemma run_step_inv:
  assumes inv: "barrier_inv s" and ok: "graph_ok graph" and node: "node_s stack = graph"
    and n: "stepn < length (seq_g graph)" and nopass: "idx < stepn \<or> \<not> heap_class type"
    and r: "run_step idx type graph stepn (seq_g graph ! stepn) loc stack s = Inr fl"
  shows "flow_inv graph fl"
proof (cases "seq_g graph ! stepn")
  case (SBarrier b p)
  have hp: "heap_class p" using graph_ok_seq [OF ok n] SBarrier by simp
  have np: "stepn \<noteq> idx \<or> type \<noteq> p" using nopass hp by auto
  show ?thesis
  proof (cases "b \<in> barriers s")
    case True
    then have "fl = ContinueMem s" using r SBarrier np by auto
    then show ?thesis using inv by simp
  next
    case False
    then obtain s' where s': "pushHeap stepn stack p b (s\<lparr>barriers := insert b (barriers s)\<rparr>) = Inr s'"
      "fl = ContinueMem s'"
      using r SBarrier np by (auto split: sum.splits)
    have "barrier_inv s'"
      using pushHeap_inv_barrier [OF inv _ hp False _ _ s'(1)] ok node n SBarrier by simp
    then show ?thesis using s'(2) by simp
  qed
next
  case (SMov src dst)
  obtain x where x: "mov_read src graph stack s = Inr x" "mov_write dst x graph loc stack s = Inr fl"
    using r SMov by (auto split: sum.splits)
  show ?thesis
  proof (cases dst)
    case ToStack
    then show ?thesis using x inv node by auto
  next
    case ToA
    then show ?thesis using x inv node by auto
  next
    case ToB
    then show ?thesis using x inv node by auto
  next
    case (ToStore rid)
    then obtain s' where s': "writeRef graph rid x s = Inr s'" "fl = Break loc stack s'"
      using x by (auto split: sum.splits)
    then have "heap s' = heap s \<and> queue s' = queue s \<and> barriers s' = barriers s"
      by (auto simp: writeRef_def split: option.splits)
    then have "barrier_inv s'" using barrier_inv_frame [of s' s] inv by simp
    then show ?thesis using s' node by simp
  qed
next
  case (SCheck c)
  show ?thesis
  proof (cases c)
    case Defined
    then show ?thesis using r SCheck inv node by auto
  next
    case (Changed rid)
    then show ?thesis using r SCheck inv node by (auto split: sum.splits)
  qed
next
  case (SFilter f)
  obtain res loc' s' where t: "tryRun loc f stack s = (res, loc', s')" by (cases "tryRun loc f stack s")
  then have "barrier_inv s'" using tryRun_frame [OF t] barrier_inv_frame [of s' s] inv by simp
  moreover have "fl = Break (loc'\<lparr>skip_lc := \<not> truthy res\<rparr>) stack s'" using r SFilter t by simp
  ultimately show ?thesis using node by simp
next
  case (SRun f)
  show ?thesis
  proof (cases "stepn \<noteq> idx \<or> type \<noteq> Effect")
    case True
    then obtain s' where s': "pushHeap stepn stack Effect 0 s = Inr s'" "fl = ContinueMem s'"
      using r SRun by (auto split: sum.splits)
    have "barrier_inv s'"
      using pushHeap_inv_fifo [OF inv _ _ s'(1)] ok node by (simp add: heap_class_def)
    then show ?thesis using s'(2) by simp
  next
    case False
    then have "compute_case f loc stack s = Inr fl" using r SRun by simp
    then show ?thesis using compute_case_inv [OF inv node] by simp
  qed
next
  case (SCompute f)
  then have "compute_case f loc stack s = Inr fl" using r by simp
  then show ?thesis using compute_case_inv [OF inv node] by simp
qed

lemma steps_done:
  "\<not> (stepn < length (seq_g graph) \<and> \<not> stop) \<Longrightarrow>
   steps idx type graph stepn loc stop stack s = Inr (Finished stop stack s)"
  by (subst steps.simps) auto

lemma steps_step:
  "stepn < length (seq_g graph) \<Longrightarrow> \<not> stop \<Longrightarrow>
   steps idx type graph stepn loc stop stack s =
     (case run_step idx type graph stepn (seq_g graph ! stepn) loc stack s of
        Inl e \<Rightarrow> Inl e
      | Inr (ContinueMem s') \<Rightarrow> Inr (Aborted s')
      | Inr (Break loc' stack' s') \<Rightarrow>
          steps idx type graph (stepn + 1) loc' (fail_lc loc' \<or> skip_lc loc') stack' s')"
  by (subst steps.simps) simp

lemma steps_inv:
  assumes "barrier_inv s" "graph_ok graph" "node_s stack = graph" "idx < stepn \<or> \<not> heap_class type"
    "steps idx type graph stepn loc stop stack s = Inr out"
  shows "outcome_inv graph out"
  using assms
proof (induction idx type graph stepn loc stop stack s rule: steps.induct)
  case (1 idx type graph stepn loc stop stack s)
  show ?case
  proof (cases "stepn < length (seq_g graph) \<and> \<not> stop")
    case False
    then have "out = Finished stop stack s" using "1.prems"(5) steps_done [OF False] by simp
    then show ?thesis using "1.prems" by simp
  next
    case True
    then obtain fl where fl: "run_step idx type graph stepn (seq_g graph ! stepn) loc stack s = Inr fl"
      using "1.prems"(5) by (cases "run_step idx type graph stepn (seq_g graph ! stepn) loc stack s")
        (auto simp: steps_step)
    have fi: "flow_inv graph fl"
      using run_step_inv [OF "1.prems"(1,2,3) _ "1.prems"(4) fl] True by simp
    show ?thesis
    proof (cases fl)
      case (ContinueMem s')
      then have "out = Aborted s'" using "1.prems"(5) True fl by (simp add: steps_step)
      then show ?thesis using fi ContinueMem by simp
    next
      case (Break loc' stack' s')
      then have st: "steps idx type graph (stepn + 1) loc' (fail_lc loc' \<or> skip_lc loc') stack' s' = Inr out"
        using "1.prems"(5) True fl by (simp add: steps_step)
      have "idx < stepn + 1 \<or> \<not> heap_class type" using "1.prems"(4) by auto
      then show ?thesis
        using "1.IH" [OF True fl Break _ "1.prems"(2) _ _ st] fi Break by simp
    qed
  qed
qed

lemma pushChildren_inv:
  assumes "barrier_inv s" "\<forall>g \<in> set gs. graph_ok g" "pushChildren gs stack s = Inr s'"
  shows "barrier_inv s'"
  using assms
proof (induction gs arbitrary: s)
  case Nil
  then show ?case by simp
next
  case (Cons g gs)
  obtain s1 where s1: "pushFirstHeapItem Child g (Some stack) (value_s stack) s = Inr s1"
    "pushChildren gs stack s1 = Inr s'"
    using Cons.prems(3) by (auto split: sum.splits)
  have "barrier_inv s1"
    using pushHeap_inv_fifo [OF Cons.prems(1), of "Stack (value_s stack) Null Null (Some stack) g" Child 0 0 s1]
      s1(1) Cons.prems(2) by (simp add: pushFirstHeapItem_def heap_class_def)
  then show ?case using Cons.IH [OF _ _ s1(2)] Cons.prems(2) by simp
qed

lemma deleteMin_inv:
  assumes inv: "barrier_inv s" and dm: "deleteMin s = Inr (Some (v, s1))"
  shows "graph_ok (node_s (stack_l v))"
    "heap_class (type_l v) \<Longrightarrow> inv_with {id_l v} s1 \<and> at_barrier v"
    "\<not> heap_class (type_l v) \<Longrightarrow> barrier_inv s1"
proof -
  have i0: "inv_with {} s" using inv by (simp add: barrier_inv_def)
  note d = inv_withD [OF i0]
  note p = deleteMin_Some_props [OF d(1) dm]
  note f = deleteMin_Some_frame [OF d(1) dm]
  note h = deleteMin_Some_heap [OF d(1) dm]
  show "graph_ok (node_s (stack_l v))" using d(2) [of v] p(2) by simp
  have nodes: "\<And>x. x \<in># queued s1 \<Longrightarrow> graph_ok (node_s (stack_l x))"
    using d(2) p(2) by simp
  {
    assume hc: "heap_class (type_l v)"
    have hs: "heap_layers (heap s) = add_mset v (heap_layers (heap s1))" using h hc by simp
    have ab: "at_barrier v" using d(3) [of v] hs by simp
    have "inv_with {id_l v} s1"
    proof (rule inv_withI)
      show "queue_wf s1" by (rule p(1))
    next
      fix x assume "x \<in># queued s1" then show "graph_ok (node_s (stack_l x))" by (rule nodes)
    next
      fix x assume "x \<in># heap_layers (heap s1)"
      then show "at_barrier x" using d(3) [of x] hs by simp
    next
      fix b
      have c: "count (pending_ids s) b = (if b = id_l v then 1 else 0) + count (pending_ids s1) b"
        by (simp add: pending_ids_def hs)
      show "count (pending_ids s1) b = (if b \<in> barriers s1 \<and> b \<notin> {id_l v} then 1 else 0)"
        using d(4) [of b] c f(1) by (auto split: if_splits)
    qed
    then show "inv_with {id_l v} s1 \<and> at_barrier v" using ab by simp
  }
  {
    assume nhc: "\<not> heap_class (type_l v)"
    have hs: "heap_layers (heap s) = heap_layers (heap s1)" using h nhc by simp
    have "inv_with {} s1"
    proof (rule inv_withI)
      show "queue_wf s1" by (rule p(1))
    next
      fix x assume "x \<in># queued s1" then show "graph_ok (node_s (stack_l x))" by (rule nodes)
    next
      fix x assume "x \<in># heap_layers (heap s1)"
      then show "at_barrier x" using d(3) [of x] hs by simp
    next
      fix b
      show "count (pending_ids s1) b = (if b \<in> barriers s1 \<and> b \<notin> {} then 1 else 0)"
        using d(4) [of b] f(1) by (simp add: pending_ids_def hs)
    qed
    then show "barrier_inv s1" by (simp add: barrier_inv_def)
  }
qed

lemma barrier_pass_inv:
  assumes "inv_with {b} s"
  shows "barrier_inv (s\<lparr>barriers := barriers s - {b}\<rparr>)"
proof -
  note d = inv_withD [OF assms]
  let ?s' = "s\<lparr>barriers := barriers s - {b}\<rparr>"
  have "inv_with {} ?s'"
  proof (rule inv_withI)
    show "queue_wf ?s'" using d(1) by (simp add: queue_wf_def fifo_wf_def)
  next
    fix x assume "x \<in># queued ?s'"
    then show "graph_ok (node_s (stack_l x))" using d(2) [of x] by (simp add: queued_def)
  next
    fix x assume "x \<in># heap_layers (heap ?s')"
    then show "at_barrier x" using d(3) [of x] by simp
  next
    fix c
    show "count (pending_ids ?s') c = (if c \<in> barriers ?s' \<and> c \<notin> {} then 1 else 0)"
      using d(4) [of c] by (simp add: pending_ids_def)
  qed
  then show ?thesis by (simp add: barrier_inv_def)
qed

lemma steps_layer_inv:
  assumes inv: "barrier_inv s" and dm: "deleteMin s = Inr (Some (v, s1))"
    and st: "steps (idx_l v) (type_l v) (node_s (stack_l v)) (idx_l v)
               \<lparr>skip_lc = False, fail_lc = False, ref_lc = [], scope_lc = sc\<rparr> False (stack_l v) s1 = Inr out"
  shows "outcome_inv (node_s (stack_l v)) out"
proof (cases "heap_class (type_l v)")
  case False
  show ?thesis
    using steps_inv [OF deleteMin_inv(3) [OF inv dm False] deleteMin_inv(1) [OF inv dm] _ _ st] False by simp
next
  case True
  let ?g = "node_s (stack_l v)"
  let ?loc = "\<lparr>skip_lc = False, fail_lc = False, ref_lc = [], scope_lc = sc\<rparr>"
  have i1: "inv_with {id_l v} s1" and ab: "at_barrier v" using deleteMin_inv(2) [OF inv dm True] by auto
  have n: "idx_l v < length (seq_g ?g)" and sb: "seq_g ?g ! idx_l v = SBarrier (id_l v) (type_l v)"
    using ab by (auto simp: at_barrier_def)
  have "steps (idx_l v) (type_l v) ?g (idx_l v) ?loc False (stack_l v) s1
      = steps (idx_l v) (type_l v) ?g (idx_l v + 1) ?loc False (stack_l v) (s1\<lparr>barriers := barriers s1 - {id_l v}\<rparr>)"
    using n sb by (simp add: steps_step)
  then have st': "steps (idx_l v) (type_l v) ?g (idx_l v + 1) ?loc False (stack_l v)
       (s1\<lparr>barriers := barriers s1 - {id_l v}\<rparr>) = Inr out" using st by simp
  show ?thesis
    using steps_inv [OF barrier_pass_inv [OF i1] deleteMin_inv(1) [OF inv dm] _ _ st'] by simp
qed

lemma exec_iter_inv:
  assumes inv: "barrier_inv s" and it: "exec_iter False s = Inr (Some (v, stop', s'))"
  shows "barrier_inv s' \<and> stop' = False"
proof -
  obtain s1 where dm: "deleteMin s = Inr (Some (v, s1))"
    using it by (auto simp: exec_iter_def Let_def split: sum.splits option.splits outcome.splits if_splits)
  let ?g = "node_s (stack_l v)"
  let ?loc = "\<lparr>skip_lc = False, fail_lc = False, ref_lc = [], scope_lc = scope_g ?g\<rparr>"
  obtain out where st: "steps (idx_l v) (type_l v) ?g (idx_l v) ?loc False (stack_l v) s1 = Inr out"
    using it dm by (auto simp: exec_iter_def Let_def split: sum.splits)
  have oi: "outcome_inv ?g out" using steps_layer_inv [OF inv dm st] .
  have gok: "graph_ok ?g" using deleteMin_inv(1) [OF inv dm] .
  show ?thesis
  proof (cases out)
    case (Aborted s2)
    then have "s' = s2" "stop' = False" using it dm st by (auto simp: exec_iter_def Let_def)
    then show ?thesis using oi Aborted by simp
  next
    case (Finished stp stack' s2)
    show ?thesis
    proof (cases stp)
      case True
      then have "s' = s2" "stop' = False" using it dm st Finished by (auto simp: exec_iter_def Let_def)
      then show ?thesis using oi Finished by simp
    next
      case False
      then have pc: "pushChildren (next_g ?g) stack' s2 = Inr s'" and "stop' = False"
        using it dm st Finished by (auto simp: exec_iter_def Let_def split: sum.splits)
      have "\<forall>c \<in> set (next_g ?g). graph_ok c" using gok graph_ok_next by blast
      then have "barrier_inv s'" using pushChildren_inv [OF _ _ pc] oi Finished by simp
      then show ?thesis using \<open>stop' = False\<close> by simp
    qed
  qed
qed

subsection \<open>The interpreter only adds to the queue\<close>

lemma grows_refl: "queue_wf s \<Longrightarrow> grows s s"
  by (simp add: grows_def)

lemma grows_trans: "grows s s' \<Longrightarrow> grows s' s'' \<Longrightarrow> grows s s''"
  unfolding grows_def by (meson subset_mset.order_trans)

lemma grows_frame: "queue_wf s \<Longrightarrow> heap s' = heap s \<Longrightarrow> queue s' = queue s \<Longrightarrow> grows s s'"
  by (simp add: grows_def queue_wf_def fifo_wf_def queued_def)

lemma pushHeap_grows: "queue_wf s \<Longrightarrow> pushHeap i st t d s = Inr s' \<Longrightarrow> grows s s'"
  using pushHeap_props(1,2) [of s i st t d s'] by (simp add: grows_def)

lemma tryRun_grows: "queue_wf s \<Longrightarrow> tryRun loc f st s = (res, loc', s') \<Longrightarrow> grows s s'"
  using tryRun_frame [of loc f st s res loc' s'] grows_frame by blast

lemma compute_case_grows:
  assumes "queue_wf s" "compute_case f loc stack s = Inr fl"
  shows "grows s (flow_state fl)"
proof -
  obtain res loc' s' where t: "tryRun loc f stack s = (res, loc', s')" by (cases "tryRun loc f stack s")
  then have "fl = Break loc' (set_value stack res) s'" using assms(2) by (simp add: compute_case_def)
  then show ?thesis using tryRun_grows [OF assms(1) t] by simp
qed

lemma run_step_grows:
  assumes wf: "queue_wf s" and r: "run_step idx type graph stepn step loc stack s = Inr fl"
  shows "grows s (flow_state fl)"
proof (cases step)
  case (SBarrier b p)
  show ?thesis
  proof (cases "stepn \<noteq> idx \<or> type \<noteq> p")
    case False
    then have "fl = Break loc stack (s\<lparr>barriers := barriers s - {b}\<rparr>)" using r SBarrier by auto
    then show ?thesis using grows_frame [OF wf, of "s\<lparr>barriers := barriers s - {b}\<rparr>"] by simp
  next
    case True
    show ?thesis
    proof (cases "b \<in> barriers s")
      case True
      then have "fl = ContinueMem s" using r SBarrier \<open>stepn \<noteq> idx \<or> type \<noteq> p\<close> by auto
      then show ?thesis using grows_refl [OF wf] by simp
    next
      case False
      let ?s1 = "s\<lparr>barriers := insert b (barriers s)\<rparr>"
      obtain s' where s': "pushHeap stepn stack p b ?s1 = Inr s'" "fl = ContinueMem s'"
        using r SBarrier False \<open>stepn \<noteq> idx \<or> type \<noteq> p\<close> by (auto split: sum.splits)
      have g1: "grows s ?s1" using grows_frame [OF wf, of ?s1] by simp
      then have "queue_wf ?s1" by (simp add: grows_def)
      then have "grows ?s1 s'" using pushHeap_grows s'(1) by blast
      then show ?thesis using g1 grows_trans s'(2) by auto
    qed
  qed
next
  case (SMov src dst)
  obtain x where x: "mov_write dst x graph loc stack s = Inr fl"
    using r SMov by (auto split: sum.splits)
  show ?thesis
  proof (cases dst)
    case ToStack
    then show ?thesis using x grows_refl [OF wf] by auto
  next
    case ToA
    then show ?thesis using x grows_refl [OF wf] by auto
  next
    case ToB
    then show ?thesis using x grows_refl [OF wf] by auto
  next
    case (ToStore rid)
    then obtain s' where s': "writeRef graph rid x s = Inr s'" "fl = Break loc stack s'"
      using x by (auto split: sum.splits)
    then have "heap s' = heap s \<and> queue s' = queue s"
      by (auto simp: writeRef_def split: option.splits)
    then show ?thesis using grows_frame [OF wf, of s'] s'(2) by simp
  qed
next
  case (SCheck c)
  show ?thesis
  proof (cases c)
    case Defined
    then show ?thesis using r SCheck grows_refl [OF wf] by auto
  next
    case (Changed rid)
    then show ?thesis using r SCheck grows_refl [OF wf] by (auto split: sum.splits)
  qed
next
  case (SFilter f)
  obtain res loc' s' where t: "tryRun loc f stack s = (res, loc', s')" by (cases "tryRun loc f stack s")
  then have "fl = Break (loc'\<lparr>skip_lc := \<not> truthy res\<rparr>) stack s'" using r SFilter by simp
  then show ?thesis using tryRun_grows [OF wf t] by simp
next
  case (SRun f)
  show ?thesis
  proof (cases "stepn \<noteq> idx \<or> type \<noteq> Effect")
    case True
    then obtain s' where s': "pushHeap stepn stack Effect 0 s = Inr s'" "fl = ContinueMem s'"
      using r SRun by (auto split: sum.splits)
    then show ?thesis using pushHeap_grows [OF wf s'(1)] by simp
  next
    case False
    then have "compute_case f loc stack s = Inr fl" using r SRun by simp
    then show ?thesis using compute_case_grows [OF wf] by simp
  qed
next
  case (SCompute f)
  then have "compute_case f loc stack s = Inr fl" using r by simp
  then show ?thesis using compute_case_grows [OF wf] by simp
qed

lemma steps_grows:
  assumes "queue_wf s" "steps idx type graph stepn loc stop stack s = Inr out"
  shows "grows s (outcome_state out)"
  using assms
proof (induction idx type graph stepn loc stop stack s rule: steps.induct)
  case (1 idx type graph stepn loc stop stack s)
  show ?case
  proof (cases "stepn < length (seq_g graph) \<and> \<not> stop")
    case False
    then have "out = Finished stop stack s" using "1.prems"(2) steps_done [OF False] by simp
    then show ?thesis using grows_refl [OF "1.prems"(1)] by simp
  next
    case True
    then obtain fl where fl: "run_step idx type graph stepn (seq_g graph ! stepn) loc stack s = Inr fl"
      using "1.prems"(2) by (cases "run_step idx type graph stepn (seq_g graph ! stepn) loc stack s")
        (auto simp: steps_step)
    have g: "grows s (flow_state fl)" using run_step_grows [OF "1.prems"(1) fl] .
    show ?thesis
    proof (cases fl)
      case (ContinueMem s')
      then have "out = Aborted s'" using "1.prems"(2) True fl by (simp add: steps_step)
      then show ?thesis using g ContinueMem by simp
    next
      case (Break loc' stack' s')
      then have st: "steps idx type graph (stepn + 1) loc' (fail_lc loc' \<or> skip_lc loc') stack' s' = Inr out"
        using "1.prems"(2) True fl by (simp add: steps_step)
      have "queue_wf s'" using g Break by (simp add: grows_def)
      then have "grows s' (outcome_state out)" using "1.IH" [OF True fl Break _ st] by simp
      then show ?thesis using g Break grows_trans by auto
    qed
  qed
qed

lemma pushChildren_grows:
  assumes "queue_wf s" "pushChildren gs stack s = Inr s'"
  shows "grows s s'"
  using assms
proof (induction gs arbitrary: s)
  case Nil
  then show ?case using grows_refl by simp
next
  case (Cons g gs)
  obtain s1 where s1: "pushFirstHeapItem Child g (Some stack) (value_s stack) s = Inr s1"
    "pushChildren gs stack s1 = Inr s'"
    using Cons.prems(2) by (auto split: sum.splits)
  have g1: "grows s s1" using pushHeap_grows [OF Cons.prems(1)] s1(1) by (simp add: pushFirstHeapItem_def)
  then have "queue_wf s1" by (simp add: grows_def)
  then show ?case using Cons.IH [OF _ s1(2)] g1 grows_trans by blast
qed

lemma exec_iter_queue:
  assumes wf: "queue_wf s" and it: "exec_iter stop s = Inr (Some (v, stop', s'))"
  shows "\<exists>s1. deleteMin s = Inr (Some (v, s1)) \<and> grows s1 s'"
proof -
  obtain s1 where dm: "deleteMin s = Inr (Some (v, s1))"
    using it by (auto simp: exec_iter_def Let_def split: sum.splits option.splits outcome.splits if_splits)
  have wf1: "queue_wf s1" using deleteMin_Some_props(1) [OF wf dm] .
  let ?g = "node_s (stack_l v)"
  let ?loc = "\<lparr>skip_lc = False, fail_lc = False, ref_lc = [], scope_lc = scope_g ?g\<rparr>"
  obtain out where st: "steps (idx_l v) (type_l v) ?g (idx_l v) ?loc stop (stack_l v) s1 = Inr out"
    using it dm by (auto simp: exec_iter_def Let_def split: sum.splits)
  have g: "grows s1 (outcome_state out)" using steps_grows [OF wf1 st] .
  have "grows s1 s'"
  proof (cases out)
    case (Aborted s2)
    then have "s' = s2" using it dm st by (auto simp: exec_iter_def Let_def)
    then show ?thesis using g Aborted by simp
  next
    case (Finished stp stack' s2)
    show ?thesis
    proof (cases stp)
      case True
      then have "s' = s2" using it dm st Finished by (auto simp: exec_iter_def Let_def)
      then show ?thesis using g Finished by simp
    next
      case False
      then have pc: "pushChildren (next_g ?g) stack' s2 = Inr s'"
        using it dm st Finished by (auto simp: exec_iter_def Let_def split: sum.splits)
      have "queue_wf s2" using g Finished by (simp add: grows_def)
      then show ?thesis using pushChildren_grows [OF _ pc] g Finished grows_trans by auto
    qed
  qed
  then show ?thesis using dm by blast
qed

lemma drain_trace_order:
  assumes "queue_wf s" "x \<in># queued s" "precedes x y" "y \<in> set (drain_trace n stop s)"
  shows "\<exists>pre post. drain_trace n stop s = pre @ x # post \<and> y \<notin> set pre"
  using assms
proof (induction n arbitrary: s stop)
  case 0
  then show ?case by simp
next
  case (Suc n)
  have "\<exists>v stop' s'. exec_iter stop s = Inr (Some (v, stop', s'))"
  proof (cases "exec_iter stop s")
    case (Inl e)
    then show ?thesis using Suc.prems(4) by simp
  next
    case (Inr r)
    then show ?thesis using Suc.prems(4) by (cases r) auto
  qed
  then obtain v stop' s' where it: "exec_iter stop s = Inr (Some (v, stop', s'))" by blast
  then have tr: "drain_trace (Suc n) stop s = v # drain_trace n stop' s'" by simp
  obtain s1 where dm: "deleteMin s = Inr (Some (v, s1))" and g: "grows s1 s'"
    using exec_iter_queue [OF Suc.prems(1) it] by blast
  have q: "queued s = add_mset v (queued s1)" and mn: "\<forall>z \<in># queued s. \<not> precedes z v"
    using deleteMin_Some_props [OF Suc.prems(1) dm] by auto
  show ?case
  proof (cases "v = x")
    case True
    then have "drain_trace (Suc n) stop s = [] @ x # drain_trace n stop' s' \<and> y \<notin> set []" using tr by simp
    then show ?thesis by blast
  next
    case False
    then have "x \<in># queued s1" using q Suc.prems(2) by auto
    then have xq: "x \<in># queued s'" using g by (meson grows_def mset_subset_eqD)
    have wf': "queue_wf s'" using g by (simp add: grows_def)
    have "v \<noteq> y" using mn Suc.prems(2,3) by auto
    then have "y \<in> set (drain_trace n stop' s')" using tr Suc.prems(4) by auto
    then obtain pre post where "drain_trace n stop' s' = pre @ x # post" "y \<notin> set pre"
      using Suc.IH [OF wf' xq Suc.prems(3)] by blast
    then have "drain_trace (Suc n) stop s = (v # pre) @ x # post \<and> y \<notin> set (v # pre)"
      using tr \<open>v \<noteq> y\<close> by auto
    then show ?thesis by blast
  qed
qed

subsection \<open>The drain ends\<close>

lemma fresh_weight_eq: "fresh_weight g = children_weight g + 2 * length (seq_g g) + 2"
  by (cases g) (simp add: children_weight_def)

lemma pushHeap_weight:
  assumes "queue_wf s" "pushHeap i st t d s = Inr s'"
  shows "drain_weight s' = drain_weight s + layer_weight \<lparr>idx_l = i, stack_l = st, type_l = t, id_l = d\<rparr>"
  using pushHeap_props(2) [OF assms] by (simp add: drain_weight_def)

lemma weight_frame: "heap s' = heap s \<Longrightarrow> queue s' = queue s \<Longrightarrow> drain_weight s' = drain_weight s"
  by (simp add: drain_weight_def queued_def)

lemma tryRun_weight: "tryRun loc f st s = (res, loc', s') \<Longrightarrow> drain_weight s' = drain_weight s"
  using tryRun_frame [of loc f st s res loc' s'] weight_frame by blast

text \<open>
  One step either leaves the \<open>switch\<close> with the weight of the queue unchanged, or ends
  the iteration after pushing at most the layer that resumes at this step.
\<close>

lemma run_step_weight:
  assumes wf: "queue_wf s" and n: "stepn < length (seq_g graph)" and node: "node_s stack = graph"
    and r: "run_step idx type graph stepn (seq_g graph ! stepn) loc stack s = Inr fl"
  shows "(\<forall>s'. fl = ContinueMem s' \<longrightarrow>
            drain_weight s' \<le> drain_weight s + children_weight graph + 2 * (length (seq_g graph) - stepn) + 1
            \<and> (stepn = idx \<longrightarrow> requeues_at (seq_g graph ! stepn) type))
       \<and> (\<forall>loc' stack' s'. fl = Break loc' stack' s' \<longrightarrow> drain_weight s' = drain_weight s \<and> node_s stack' = graph)"
proof (cases "seq_g graph ! stepn")
  case (SBarrier b p)
  show ?thesis
  proof (cases "stepn \<noteq> idx \<or> type \<noteq> p")
    case False
    then have "fl = Break loc stack (s\<lparr>barriers := barriers s - {b}\<rparr>)" using r SBarrier by auto
    then show ?thesis using node weight_frame [of "s\<lparr>barriers := barriers s - {b}\<rparr>" s] by simp
  next
    case True
    show ?thesis
    proof (cases "b \<in> barriers s")
      case True
      then have "fl = ContinueMem s" using r SBarrier \<open>stepn \<noteq> idx \<or> type \<noteq> p\<close> by auto
      then show ?thesis using SBarrier \<open>stepn \<noteq> idx \<or> type \<noteq> p\<close> by auto
    next
      case False
      let ?s1 = "s\<lparr>barriers := insert b (barriers s)\<rparr>"
      let ?v = "\<lparr>idx_l = stepn, stack_l = stack, type_l = p, id_l = b\<rparr>"
      obtain s' where s': "pushHeap stepn stack p b ?s1 = Inr s'" "fl = ContinueMem s'"
        using r SBarrier False \<open>stepn \<noteq> idx \<or> type \<noteq> p\<close> by (auto split: sum.splits)
      have wf1: "queue_wf ?s1" using wf by (simp add: queue_wf_def fifo_wf_def)
      have "drain_weight s' = drain_weight ?s1 + layer_weight ?v" using pushHeap_weight [OF wf1 s'(1)] .
      moreover have "drain_weight ?s1 = drain_weight s" by (rule weight_frame) simp_all
      moreover have "layer_weight ?v = children_weight graph + 2 * (length (seq_g graph) - stepn) + 1"
        using node n SBarrier by (simp add: layer_weight_def requeues_def)
      ultimately show ?thesis using s'(2) SBarrier \<open>stepn \<noteq> idx \<or> type \<noteq> p\<close> by auto
    qed
  qed
next
  case (SMov src dst)
  obtain x where x: "mov_write dst x graph loc stack s = Inr fl"
    using r SMov by (auto split: sum.splits)
  show ?thesis
  proof (cases dst)
    case ToStack
    then show ?thesis using x node by auto
  next
    case ToA
    then show ?thesis using x node by auto
  next
    case ToB
    then show ?thesis using x node by auto
  next
    case (ToStore rid)
    then obtain s' where s': "writeRef graph rid x s = Inr s'" "fl = Break loc stack s'"
      using x by (auto split: sum.splits)
    then have "heap s' = heap s \<and> queue s' = queue s"
      by (auto simp: writeRef_def split: option.splits)
    then show ?thesis using weight_frame [of s' s] s'(2) node by simp
  qed
next
  case (SCheck c)
  show ?thesis
  proof (cases c)
    case Defined
    then show ?thesis using r SCheck node by auto
  next
    case (Changed rid)
    then show ?thesis using r SCheck node by (auto split: sum.splits)
  qed
next
  case (SFilter f)
  obtain res loc' s' where t: "tryRun loc f stack s = (res, loc', s')" by (cases "tryRun loc f stack s")
  then have "fl = Break (loc'\<lparr>skip_lc := \<not> truthy res\<rparr>) stack s'" using r SFilter by simp
  then show ?thesis using tryRun_weight [OF t] node by simp
next
  case (SRun f)
  show ?thesis
  proof (cases "stepn \<noteq> idx \<or> type \<noteq> Effect")
    case True
    let ?v = "\<lparr>idx_l = stepn, stack_l = stack, type_l = Effect, id_l = 0\<rparr>"
    obtain s' where s': "pushHeap stepn stack Effect 0 s = Inr s'" "fl = ContinueMem s'"
      using r SRun True by (auto split: sum.splits)
    have "drain_weight s' = drain_weight s + layer_weight ?v" using pushHeap_weight [OF wf s'(1)] .
    moreover have "layer_weight ?v = children_weight graph + 2 * (length (seq_g graph) - stepn) + 1"
      using node n SRun by (simp add: layer_weight_def requeues_def)
    ultimately show ?thesis using s'(2) SRun True by auto
  next
    case False
    obtain res loc' s' where t: "tryRun loc f stack s = (res, loc', s')" by (cases "tryRun loc f stack s")
    then have "fl = Break loc' (set_value stack res) s'" using r SRun False by (simp add: compute_case_def)
    then show ?thesis using tryRun_weight [OF t] node by simp
  qed
next
  case (SCompute f)
  obtain res loc' s' where t: "tryRun loc f stack s = (res, loc', s')" by (cases "tryRun loc f stack s")
  then have "fl = Break loc' (set_value stack res) s'" using r SCompute by (simp add: compute_case_def)
  then show ?thesis using tryRun_weight [OF t] node by simp
qed

lemma steps_weight:
  assumes "queue_wf s" "node_s stack = graph" "steps idx type graph stepn loc stop stack s = Inr out"
  shows "(\<forall>s'. out = Aborted s' \<longrightarrow>
            stepn < length (seq_g graph)
            \<and> drain_weight s' \<le> drain_weight s + children_weight graph + 2 * (length (seq_g graph) - stepn) + 1
            \<and> (stepn = idx \<and> \<not> requeues_at (seq_g graph ! idx) type \<longrightarrow>
                 drain_weight s' + 2 \<le> drain_weight s + children_weight graph + 2 * (length (seq_g graph) - stepn) + 1))
       \<and> (\<forall>st stack' s'. out = Finished st stack' s' \<longrightarrow> drain_weight s' = drain_weight s \<and> node_s stack' = graph)"
  using assms
proof (induction idx type graph stepn loc stop stack s rule: steps.induct)
  case (1 idx type graph stepn loc stop stack s)
  show ?case
  proof (cases "stepn < length (seq_g graph) \<and> \<not> stop")
    case False
    then have "out = Finished stop stack s" using "1.prems"(3) steps_done [OF False] by simp
    then show ?thesis using "1.prems"(2) by simp
  next
    case True
    then obtain fl where fl: "run_step idx type graph stepn (seq_g graph ! stepn) loc stack s = Inr fl"
      using "1.prems"(3) by (cases "run_step idx type graph stepn (seq_g graph ! stepn) loc stack s")
        (auto simp: steps_step)
    note rw = run_step_weight [OF "1.prems"(1) _ "1.prems"(2) fl]
    show ?thesis
    proof (cases fl)
      case (ContinueMem s')
      then have "out = Aborted s'" using "1.prems"(3) True fl by (simp add: steps_step)
      then show ?thesis using rw True ContinueMem by auto
    next
      case (Break loc' stack' s1)
      then have st: "steps idx type graph (stepn + 1) loc' (fail_lc loc' \<or> skip_lc loc') stack' s1 = Inr out"
        using "1.prems"(3) True fl by (simp add: steps_step)
      have w1: "drain_weight s1 = drain_weight s" and n1: "node_s stack' = graph"
        using rw True Break by auto
      have "grows s (flow_state fl)" using run_step_grows [OF "1.prems"(1) fl] .
      then have wf1: "queue_wf s1" using Break by (simp add: grows_def)
      note ih = "1.IH" [OF True fl Break wf1 n1 st]
      show ?thesis
      proof (intro conjI allI impI)
        fix s' assume a: "out = Aborted s'"
        then have b: "stepn + 1 < length (seq_g graph)"
          "drain_weight s' \<le> drain_weight s1 + children_weight graph + 2 * (length (seq_g graph) - (stepn + 1)) + 1"
          using ih by auto
        show "stepn < length (seq_g graph)" using True by simp
        show "drain_weight s' \<le> drain_weight s + children_weight graph + 2 * (length (seq_g graph) - stepn) + 1"
          using b w1 by arith
        show "drain_weight s' + 2 \<le> drain_weight s + children_weight graph + 2 * (length (seq_g graph) - stepn) + 1"
          using b w1 by arith
      next
        fix st' stack'' s' assume "out = Finished st' stack'' s'"
        then show "drain_weight s' = drain_weight s" "node_s stack'' = graph" using ih w1 by auto
      qed
    qed
  qed
qed

lemma steps_weight_aborted:
  assumes "queue_wf s" "node_s stack = graph" "steps idx type graph stepn loc stop stack s = Inr (Aborted s')"
  shows "stepn < length (seq_g graph)"
    "drain_weight s' \<le> drain_weight s + children_weight graph + 2 * (length (seq_g graph) - stepn) + 1"
    "stepn = idx \<Longrightarrow> \<not> requeues_at (seq_g graph ! idx) type \<Longrightarrow>
       drain_weight s' + 2 \<le> drain_weight s + children_weight graph + 2 * (length (seq_g graph) - stepn) + 1"
  using steps_weight [OF assms] by blast+

lemma steps_weight_finished:
  assumes "queue_wf s" "node_s stack = graph" "steps idx type graph stepn loc stop stack s = Inr (Finished st stack' s')"
  shows "drain_weight s' = drain_weight s" "node_s stack' = graph"
  using steps_weight [OF assms] by blast+

lemma pushChildren_weight:
  assumes "queue_wf s" "pushChildren gs stack s = Inr s'"
  shows "drain_weight s' \<le> drain_weight s + sum_list (map fresh_weight gs)"
  using assms
proof (induction gs arbitrary: s)
  case Nil
  then show ?case by simp
next
  case (Cons g gs)
  let ?v = "\<lparr>idx_l = 0, stack_l = Stack (value_s stack) Null Null (Some stack) g, type_l = Child, id_l = 0\<rparr>"
  obtain s1 where s1: "pushHeap 0 (Stack (value_s stack) Null Null (Some stack) g) Child 0 s = Inr s1"
    "pushChildren gs stack s1 = Inr s'"
    using Cons.prems(2) by (auto simp: pushFirstHeapItem_def split: sum.splits)
  have w1: "drain_weight s1 = drain_weight s + layer_weight ?v" using pushHeap_weight [OF Cons.prems(1) s1(1)] .
  have "layer_weight ?v \<le> fresh_weight g" by (simp add: layer_weight_def fresh_weight_eq)
  moreover have "queue_wf s1" using pushHeap_props(1) [OF Cons.prems(1) s1(1)] .
  ultimately show ?case using Cons.IH [OF _ s1(2)] w1 by simp
qed

lemma exec_iter_weight:
  assumes wf: "queue_wf s" and it: "exec_iter stop s = Inr (Some (v, stop', s'))"
  shows "drain_weight s' < drain_weight s"
proof -
  obtain s1 where dm: "deleteMin s = Inr (Some (v, s1))"
    using it by (auto simp: exec_iter_def Let_def split: sum.splits option.splits outcome.splits if_splits)
  have wf1: "queue_wf s1" and q: "queued s = add_mset v (queued s1)"
    using deleteMin_Some_props [OF wf dm] by auto
  have m: "drain_weight s = layer_weight v + drain_weight s1" by (simp add: drain_weight_def q)
  let ?g = "node_s (stack_l v)"
  let ?loc = "\<lparr>skip_lc = False, fail_lc = False, ref_lc = [], scope_lc = scope_g ?g\<rparr>"
  obtain out where st: "steps (idx_l v) (type_l v) ?g (idx_l v) ?loc stop (stack_l v) s1 = Inr out"
    using it dm by (auto simp: exec_iter_def Let_def split: sum.splits)
  show ?thesis
  proof (cases out)
    case (Aborted s2)
    then have e: "s' = s2" using it dm st by (auto simp: exec_iter_def Let_def)
    have st2: "steps (idx_l v) (type_l v) ?g (idx_l v) ?loc stop (stack_l v) s1 = Inr (Aborted s2)"
      using st Aborted by simp
    note b = steps_weight_aborted [OF wf1 refl st2]
    show ?thesis
    proof (cases "requeues v")
      case True
      then have "layer_weight v = children_weight ?g + 2 * (length (seq_g ?g) - idx_l v) + 2"
        by (simp add: layer_weight_def)
      then show ?thesis using b(2) m e by arith
    next
      case False
      then have "\<not> requeues_at (seq_g ?g ! idx_l v) (type_l v)" using b(1) by (simp add: requeues_def)
      then have "drain_weight s2 + 2 \<le> drain_weight s1 + children_weight ?g + 2 * (length (seq_g ?g) - idx_l v) + 1"
        using b(3) by simp
      moreover have "layer_weight v = children_weight ?g + 2 * (length (seq_g ?g) - idx_l v) + 1"
        using False by (simp add: layer_weight_def)
      ultimately show ?thesis using m e by arith
    qed
  next
    case (Finished stp stack' s2)
    have st2: "steps (idx_l v) (type_l v) ?g (idx_l v) ?loc stop (stack_l v) s1 = Inr (Finished stp stack' s2)"
      using st Finished by simp
    have w2: "drain_weight s2 = drain_weight s1" and n2: "node_s stack' = ?g"
      using steps_weight_finished [OF wf1 refl st2] by auto
    have lw: "layer_weight v \<ge> children_weight ?g + 1" by (simp add: layer_weight_def)
    show ?thesis
    proof (cases stp)
      case True
      then have "s' = s2" using it dm st Finished by (auto simp: exec_iter_def Let_def)
      then show ?thesis using w2 m lw by arith
    next
      case False
      then have pc: "pushChildren (next_g ?g) stack' s2 = Inr s'"
        using it dm st Finished by (auto simp: exec_iter_def Let_def split: sum.splits)
      have "grows s1 (outcome_state out)" using steps_grows [OF wf1 st] .
      then have "queue_wf s2" using Finished by (simp add: grows_def)
      then have "drain_weight s' \<le> drain_weight s2 + children_weight ?g"
        using pushChildren_weight [OF _ pc] by (simp add: children_weight_def)
      then show ?thesis using w2 m lw by arith
    qed
  qed
qed

lemma exec_loop_terminates:
  assumes "queue_wf s"
  shows "\<exists>r. exec_loop stop s = Some r"
  using assms
proof (induction "drain_weight s" arbitrary: s stop rule: less_induct)
  case less
  show ?case
  proof (cases "exec_iter stop s")
    case (Inl e)
    then show ?thesis by (subst exec_loop.simps) simp
  next
    case (Inr r)
    show ?thesis
    proof (cases r)
      case None
      then show ?thesis using Inr by (subst exec_loop.simps) simp
    next
      case (Some p)
      obtain v st s' where p: "p = (v, st, s')" by (cases p)
      have it: "exec_iter stop s = Inr (Some (v, st, s'))" using Inr Some p by simp
      have "drain_weight s' < drain_weight s" using exec_iter_weight [OF less.prems it] .
      moreover have "queue_wf s'" using exec_iter_queue [OF less.prems it] by (auto simp: grows_def)
      ultimately have "\<exists>r. exec_loop st s' = Some r" using less.hyps by blast
      then show ?thesis using it by (subst exec_loop.simps) simp
    qed
  qed
qed


lemma seed_units_wf:
  "queue_wf s \<Longrightarrow> seed_units gs i p s = Inr s' \<Longrightarrow> queue_wf s'"
proof (induction gs arbitrary: i s)
  case Nil
  then show ?case by simp
next
  case (Cons g gs)
  then obtain x s1 where s1: "pushHeap 0 (Stack x Null Null None (getGraph g)) Pure 0 s = Inr s1"
    "seed_units gs (i + 1) p s1 = Inr s'"
    by (auto simp: pushFirstHeapItem_def split: sum.splits)
  have "queue_wf s1" using pushHeap_props(1) [OF Cons.prems(1) s1(1)] .
  then show ?case using Cons.IH s1(2) by blast
qed

lemma seed_wf: "queue_wf s \<Longrightarrow> seed t p s = Inr s' \<Longrightarrow> queue_wf s'"
proof (cases t)
  case (Node g)
  assume "queue_wf s" "seed t p s = Inr s'"
  then show ?thesis using Node pushHeap_props(1) [of s 0 _ Pure 0 s'] by (simp add: pushFirstHeapItem_def)
next
  case (Nodes gs)
  assume "queue_wf s" "seed t p s = Inr s'"
  then show ?thesis using Nodes seed_units_wf by simp
qed

lemma exec_returns:
  assumes "queue_wf s"
  shows "\<exists>r. exec s = Some r"
proof -
  have "queue_wf (s\<lparr>alreadyStarted := True\<rparr>)" using assms by (simp add: queue_wf_def fifo_wf_def)
  then obtain r where "exec_loop False (s\<lparr>alreadyStarted := True\<rparr>) = Some r"
    using exec_loop_terminates by blast
  then show ?thesis by (cases r) (simp_all add: exec_def)
qed

lemma launch_returns:
  assumes "queue_wf s"
  shows "\<exists>r. launch arg payload upsert s = Some r"
proof -
  obtain t p u where un: "unpack arg payload upsert = (t, p, u)" by (cases "unpack arg payload upsert")
  show ?thesis
  proof (cases "seed t p s")
    case (Inl e)
    then show ?thesis using un by (simp add: launch_def)
  next
    case (Inr s1)
    then have "queue_wf s1" using seed_wf [OF assms] by simp
    then obtain r where "exec s1 = Some r" using exec_returns by blast
    then show ?thesis using un Inr by (simp add: launch_def)
  qed
qed

lemma exec_loop_end:
  assumes "barrier_inv s" "exec_loop False s = Some (Inr s')"
  shows "barrier_inv s' \<and> queued s' = {#} \<and> barriers s' = {}"
  using assms
proof (induction "drain_weight s" arbitrary: s rule: less_induct)
  case less
  have wf: "queue_wf s" using less.prems(1) by (simp add: barrier_inv_def inv_with_def)
  show ?case
  proof (cases "exec_iter False s")
    case (Inl e)
    then have "exec_loop False s = Some (Inl e)" by (subst exec_loop.simps) simp
    then show ?thesis using less.prems(2) by simp
  next
    case (Inr r)
    show ?thesis
    proof (cases r)
      case None
      then have "exec_loop False s = Some (Inr s)" using Inr by (subst exec_loop.simps) simp
      then have e: "s' = s" using less.prems(2) by simp
      have "deleteMin s = Inr None"
        using Inr None by (auto simp: exec_iter_def Let_def split: sum.splits option.splits outcome.splits if_splits)
      then have q: "queued s = {#}" using deleteMin_None_empty [OF wf] by simp
      then have "heap_layers (heap s) = {#}" by (simp add: queued_def)
      then have "pending_ids s = {#}" by (simp add: pending_ids_def)
      then have "\<forall>b. b \<notin> barriers s"
        using less.prems(1) by (auto simp: barrier_inv_def inv_with_def split: if_splits)
      then show ?thesis using less.prems(1) q e by auto
    next
      case (Some p)
      obtain v st s1 where p: "p = (v, st, s1)" by (cases p)
      have it: "exec_iter False s = Inr (Some (v, st, s1))" using Inr Some p by simp
      have i1: "barrier_inv s1" "st = False" using exec_iter_inv [OF less.prems(1) it] by auto
      have w: "drain_weight s1 < drain_weight s" using exec_iter_weight [OF wf it] .
      have "exec_loop False s = exec_loop False s1" using it i1(2) by (subst exec_loop.simps) simp
      then have "exec_loop False s1 = Some (Inr s')" using less.prems(2) by simp
      then show ?thesis using less.hyps [OF w i1(1)] by simp
    qed
  qed
qed

text \<open>
  The consistency of the queue holds in the initial state (\<open>engine_init_wf\<close>) and is kept
  by every call of \<open>launch\<close> that returns, which leaves the queue empty when it drained.
\<close>

lemma exec_loop_wf:
  assumes "queue_wf s" "exec_loop stop s = Some (Inr s')"
  shows "queue_wf s' \<and> queued s' = {#}"
  using assms
proof (induction "drain_weight s" arbitrary: s stop rule: less_induct)
  case less
  show ?case
  proof (cases "exec_iter stop s")
    case (Inl e)
    then have "exec_loop stop s = Some (Inl e)" by (subst exec_loop.simps) simp
    then show ?thesis using less.prems(2) by simp
  next
    case (Inr r)
    show ?thesis
    proof (cases r)
      case None
      then have "exec_loop stop s = Some (Inr s)" using Inr by (subst exec_loop.simps) simp
      then have e: "s' = s" using less.prems(2) by simp
      have "deleteMin s = Inr None"
        using Inr None by (auto simp: exec_iter_def Let_def split: sum.splits option.splits outcome.splits if_splits)
      then show ?thesis using deleteMin_None_empty [OF less.prems(1)] less.prems(1) e by simp
    next
      case (Some p)
      obtain v st s1 where p: "p = (v, st, s1)" by (cases p)
      have it: "exec_iter stop s = Inr (Some (v, st, s1))" using Inr Some p by simp
      have wf1: "queue_wf s1" using exec_iter_queue [OF less.prems(1) it] by (auto simp: grows_def)
      have w: "drain_weight s1 < drain_weight s" using exec_iter_weight [OF less.prems(1) it] .
      have "exec_loop stop s = exec_loop st s1" using it by (subst exec_loop.simps) simp
      then have "exec_loop st s1 = Some (Inr s')" using less.prems(2) by simp
      then show ?thesis using less.hyps [OF w wf1] by simp
    qed
  qed
qed

lemma launch_wf:
  assumes "queue_wf s" "launch arg payload upsert s = Some (Inr s')"
  shows "queue_wf s'"
proof -
  obtain t p u where un: "unpack arg payload upsert = (t, p, u)" by (cases "unpack arg payload upsert")
  show ?thesis
  proof (cases "seed t p s")
    case (Inl e)
    then show ?thesis using un assms(2) by (simp add: launch_def)
  next
    case (Inr s1)
    then have wf1: "queue_wf s1" using seed_wf [OF assms(1)] by simp
    show ?thesis
    proof (cases "u \<and> alreadyStarted s1")
      case True
      then show ?thesis using un Inr assms(2) wf1 by (simp add: launch_def)
    next
      case False
      then have ex: "exec s1 = Some (Inr s')" using un Inr assms(2) by (auto simp: launch_def)
      have wf2: "queue_wf (s1\<lparr>alreadyStarted := True\<rparr>)" using wf1 by (simp add: queue_wf_def fifo_wf_def)
      obtain s2 where s2: "exec_loop False (s1\<lparr>alreadyStarted := True\<rparr>) = Some (Inr s2)"
        "s' = s2\<lparr>alreadyStarted := alreadyStarted s1\<rparr>"
        using ex by (auto simp: exec_def Let_def split: option.splits sum.splits)
      have "queue_wf s2" using exec_loop_wf [OF wf2 s2(1)] by simp
      then show ?thesis using s2(2) by (simp add: queue_wf_def fifo_wf_def)
    qed
  qed
qed

section \<open>The claims about the order of the queue\<close>

subsection \<open>The example queue\<close>

lemma ex_queue_eq:
  "ex_queue = engine_init\<lparr>
      heap := HNode (ex_layer Barrier 3) (HNode (ex_layer Barrier 9) (HNode (ex_layer Sampler 5) HNull HNull) HNull) HNull,
      queue := (\<lambda>i. if i = 0 then \<lparr>items_b = [ex_layer Child 0], size_b = 1\<rparr>
                     else if i = 1 then \<lparr>items_b = [ex_layer Pure 0], size_b = 1\<rparr>
                     else if i = 2 then \<lparr>items_b = [], size_b = 2\<rparr>
                     else if i = 3 then \<lparr>items_b = [], size_b = 1\<rparr>
                     else if i = 4 then \<lparr>items_b = [ex_layer Effect 0], size_b = 1\<rparr>
                     else \<lparr>items_b = [], size_b = 0\<rparr>)\<rparr>"
  by (auto simp: ex_queue_def ex_pushes_def pushHeap_def Let_def engine_init_def ex_layer_def fun_eq_iff)

lemma ex_queue_wf: "queue_wf ex_queue"
  by (simp add: ex_queue_eq queue_wf_def fifo_wf_def engine_init_def ex_layer_def heap_le_def heap_class_def)

lemma ex_run: "run_ops [DeleteMin, DeleteMin, DeleteMin, DeleteMin, DeleteMin, DeleteMin] ex_queue = 
  Inr ([ex_layer Child 0, ex_layer Pure 0, ex_layer Barrier 3, ex_layer Barrier 9, ex_layer Sampler 5, ex_layer Effect 0], engine_init)"
  by (simp add: ex_queue_eq deleteMin_def Let_def engine_init_def ex_layer_def fun_eq_iff)

lemma ex_drain: "drain_trace 6 False ex_queue = [ex_layer Child 0, ex_layer Pure 0, ex_layer Barrier 3, ex_layer Barrier 9, ex_layer Sampler 5, ex_layer Effect 0]"
  by (simp add: eval_nat_numeral ex_queue_eq exec_iter_def steps_done deleteMin_def Let_def engine_init_def ex_layer_def ex_leaf_def fun_eq_iff)

lemma ex_heap: "heap ex_queue = HNode (ex_layer Barrier 3) (HNode (ex_layer Barrier 9) (HNode (ex_layer Sampler 5) HNull HNull) HNull) HNull"
  by (simp add: ex_queue_eq)

lemma ex_fifo_run:
  "run_ops ex_fifo_ops engine_init =
     Inr ([\<lparr>idx_l = 0, stack_l = Stack (Num 1) Null Null None ex_leaf, type_l = Child, id_l = 0\<rparr>,
           \<lparr>idx_l = 0, stack_l = Stack (Num 2) Null Null None ex_leaf, type_l = Child, id_l = 0\<rparr>,
           \<lparr>idx_l = 0, stack_l = Stack (Num 3) Null Null None ex_leaf, type_l = Child, id_l = 0\<rparr>], engine_init)"
  by (simp add: ex_fifo_ops_def pushHeap_def deleteMin_def Let_def engine_init_def fun_eq_iff)


subsection \<open>Claim C2\<close>

text \<open>
  Claim C2. Let the queue be consistent and hold two layers \<open>x\<close> and \<open>y\<close> whose priority
  classes have the numbers \<open>p1 < p2\<close> (by \<open>getPriority\<close>: child 0, pure 1, barrier 2,
  sampler 3, effect 4). Then in every sequence of queue operations from there, and in every
  run of the drain from there, \<open>y\<close> is not taken from the queue (and so not executed)
  unless \<open>x\<close> has been taken before it.
\<close>

theorem C2_priority_order:
  assumes "queue_wf s" "x \<in># queued s" "y \<in># queued s"
    and "getPriority (type_l x) < getPriority (type_l y)"
  shows "(\<forall>ops out s'. run_ops ops s = Inr (out, s') \<and> y \<in> set out
             \<longrightarrow> (\<exists>pre post. out = pre @ x # post \<and> y \<notin> set pre))
       \<and> (\<forall>n stop. y \<in> set (drain_trace n stop s)
             \<longrightarrow> (\<exists>pre post. drain_trace n stop s = pre @ x # post \<and> y \<notin> set pre))"
proof -
  have p: "precedes x y" using assms(4) by (simp add: precedes_def)
  show ?thesis
    using run_ops_order [OF assms(1,2) p] drain_trace_order [OF assms(1,2) p] by blast
qed


text \<open>
  The witness: the example queue, where the \<open>pure\<close> layer is executed before the
  \<open>effect\<close> layer by the drain.
\<close>

theorem C2_priority_order_witness:
  "queue_wf ex_queue \<and> ex_layer Pure 0 \<in># queued ex_queue \<and> ex_layer Effect 0 \<in># queued ex_queue
   \<and> getPriority (type_l (ex_layer Pure 0)) < getPriority (type_l (ex_layer Effect 0))
   \<and> ex_layer Effect 0 \<in> set (drain_trace 6 False ex_queue)
   \<and> (\<exists>pre post. drain_trace 6 False ex_queue = pre @ ex_layer Pure 0 # post \<and> ex_layer Effect 0 \<notin> set pre)"
proof -
  have 1: "queue_wf ex_queue" by (rule ex_queue_wf)
  have 2: "ex_layer Pure 0 \<in># queued ex_queue" by (simp add: ex_queue_eq queued_def)
  have 3: "ex_layer Effect 0 \<in># queued ex_queue" by (simp add: ex_queue_eq queued_def)
  have 4: "getPriority (type_l (ex_layer Pure 0)) < getPriority (type_l (ex_layer Effect 0))"
    by (simp add: ex_layer_def)
  have 5: "ex_layer Effect 0 \<in> set (drain_trace 6 False ex_queue)" by (simp add: ex_drain)
  show ?thesis using C2_priority_order [OF 1 2 3 4] 1 2 3 4 5 by blast
qed

subsection \<open>Claim C3\<close>

text \<open>
  Claim C3. Let the queue be consistent and let \<open>x\<close> and \<open>y\<close> be two layers of the shared
  heap, \<open>x\<close> of type \<open>barrier\<close> and \<open>y\<close> of type \<open>sampler\<close>, or both of the same type
  and \<open>x\<close> with the smaller id. Then in every sequence of queue operations, and in every
  run of the drain, \<open>y\<close> is not taken from the queue unless \<open>x\<close> has been taken before.
\<close>

theorem C3_heap_order:
  assumes "queue_wf s" "x \<in># heap_layers (heap s)" "y \<in># heap_layers (heap s)"
    and "(type_l x = Barrier \<and> type_l y = Sampler) \<or> (type_l x = type_l y \<and> id_l x < id_l y)"
  shows "(\<forall>ops out s'. run_ops ops s = Inr (out, s') \<and> y \<in> set out
             \<longrightarrow> (\<exists>pre post. out = pre @ x # post \<and> y \<notin> set pre))
       \<and> (\<forall>n stop. y \<in> set (drain_trace n stop s)
             \<longrightarrow> (\<exists>pre post. drain_trace n stop s = pre @ x # post \<and> y \<notin> set pre))"
proof -
  have "heap_class (type_l x)" using assms(1,2) by (simp add: queue_wf_def)
  then have p: "precedes x y" using assms(4) by (auto simp: precedes_def)
  have q: "x \<in># queued s" using assms(2) by (simp add: queued_def)
  show ?thesis
    using run_ops_order [OF assms(1) q p] drain_trace_order [OF assms(1) q p] by blast
qed


text \<open>
  The witness: in the example queue the barrier of id 9 leaves before the sampler of id 5,
  and the barrier of id 3 before the barrier of id 9, though it was pushed last.
\<close>

theorem C3_heap_order_witness:
  "queue_wf ex_queue
   \<and> ex_layer Barrier 9 \<in># heap_layers (heap ex_queue) \<and> ex_layer Sampler 5 \<in># heap_layers (heap ex_queue)
   \<and> ex_layer Barrier 3 \<in># heap_layers (heap ex_queue)
   \<and> run_ops [DeleteMin, DeleteMin, DeleteMin, DeleteMin, DeleteMin, DeleteMin] ex_queue =
        Inr ([ex_layer Child 0, ex_layer Pure 0, ex_layer Barrier 3, ex_layer Barrier 9,
              ex_layer Sampler 5, ex_layer Effect 0], engine_init)
   \<and> (\<exists>pre post. [ex_layer Child 0, ex_layer Pure 0, ex_layer Barrier 3, ex_layer Barrier 9,
              ex_layer Sampler 5, ex_layer Effect 0] = pre @ ex_layer Barrier 9 # post
          \<and> ex_layer Sampler 5 \<notin> set pre)
   \<and> (\<exists>pre post. [ex_layer Child 0, ex_layer Pure 0, ex_layer Barrier 3, ex_layer Barrier 9,
              ex_layer Sampler 5, ex_layer Effect 0] = pre @ ex_layer Barrier 3 # post
          \<and> ex_layer Barrier 9 \<notin> set pre)"
proof -
  have 1: "queue_wf ex_queue" by (rule ex_queue_wf)
  have 2: "ex_layer Barrier 9 \<in># heap_layers (heap ex_queue)" by (simp add: ex_heap)
  have 3: "ex_layer Sampler 5 \<in># heap_layers (heap ex_queue)" by (simp add: ex_heap)
  have 4: "ex_layer Barrier 3 \<in># heap_layers (heap ex_queue)" by (simp add: ex_heap)
  have a: "(type_l (ex_layer Barrier 9) = Barrier \<and> type_l (ex_layer Sampler 5) = Sampler)
      \<or> (type_l (ex_layer Barrier 9) = type_l (ex_layer Sampler 5) \<and> id_l (ex_layer Barrier 9) < id_l (ex_layer Sampler 5))"
    by (simp add: ex_layer_def)
  have b: "(type_l (ex_layer Barrier 3) = Barrier \<and> type_l (ex_layer Barrier 9) = Sampler)
      \<or> (type_l (ex_layer Barrier 3) = type_l (ex_layer Barrier 9) \<and> id_l (ex_layer Barrier 3) < id_l (ex_layer Barrier 9))"
    by (simp add: ex_layer_def)
  have m1: "ex_layer Sampler 5 \<in> set [ex_layer Child 0, ex_layer Pure 0, ex_layer Barrier 3, ex_layer Barrier 9,
              ex_layer Sampler 5, ex_layer Effect 0]" by simp
  have m2: "ex_layer Barrier 9 \<in> set [ex_layer Child 0, ex_layer Pure 0, ex_layer Barrier 3, ex_layer Barrier 9,
              ex_layer Sampler 5, ex_layer Effect 0]" by simp
  show ?thesis
    using C3_heap_order [OF 1 2 3 a] C3_heap_order [OF 1 4 2 b] 1 2 3 4 ex_run m1 m2 by blast
qed


subsection \<open>Claim C4\<close>

text \<open>
  Claim C4. For each of the classes \<open>child\<close>, \<open>pure\<close> and \<open>effect\<close>, and every sequence
  of enqueues and dequeues on a consistent queue: the layers of the class that were
  dequeued, followed by those still in the bucket, are the layers that were in the bucket
  at the start followed by those enqueued, in the order of enqueueing. So the dequeue
  order is the enqueue order.
\<close>

theorem C4_fifo:
  assumes "queue_wf s" "run_ops ops s = Inr (out, s')" "c = Child \<or> c = Pure \<or> c = Effect"
  shows "filter (\<lambda>x. type_l x = c) out @ items_b (queue s' (getPriority c))
         = items_b (queue s (getPriority c)) @ filter (\<lambda>x. type_l x = c) (pushed ops)"
  using run_ops_fifo [OF assms] .


text \<open>The witness: three \<open>child\<close> layers leave in the order in which they were pushed.\<close>

theorem C4_fifo_witness:
  "queue_wf engine_init
   \<and> run_ops ex_fifo_ops engine_init =
     Inr ([\<lparr>idx_l = 0, stack_l = Stack (Num 1) Null Null None ex_leaf, type_l = Child, id_l = 0\<rparr>,
           \<lparr>idx_l = 0, stack_l = Stack (Num 2) Null Null None ex_leaf, type_l = Child, id_l = 0\<rparr>,
           \<lparr>idx_l = 0, stack_l = Stack (Num 3) Null Null None ex_leaf, type_l = Child, id_l = 0\<rparr>], engine_init)
   \<and> filter (\<lambda>x. type_l x = Child)
        [\<lparr>idx_l = 0, stack_l = Stack (Num 1) Null Null None ex_leaf, type_l = Child, id_l = 0\<rparr>,
         \<lparr>idx_l = 0, stack_l = Stack (Num 2) Null Null None ex_leaf, type_l = Child, id_l = 0\<rparr>,
         \<lparr>idx_l = 0, stack_l = Stack (Num 3) Null Null None ex_leaf, type_l = Child, id_l = 0\<rparr>]
       @ items_b (queue engine_init (getPriority Child))
     = items_b (queue engine_init (getPriority Child)) @ filter (\<lambda>x. type_l x = Child) (pushed ex_fifo_ops)"
  using C4_fifo [OF engine_init_wf ex_fifo_run, of Child] engine_init_wf ex_fifo_run by simp


section \<open>The claim about barrier coalescing\<close>










section \<open>The claims about the steps \<open>run\<close>, \<open>filter\<close> and \<open>compute\<close>\<close>


lemma pushHeap_pure:
  assumes "size_b (queue s 1) = length (items_b (queue s 1))"
  shows "pushHeap i st Pure d s =
     Inr (s\<lparr>queue := (queue s)(1 := \<lparr>items_b = items_b (queue s 1) @ [\<lparr>idx_l = i, stack_l = st, type_l = Pure, id_l = d\<rparr>],
                                    size_b = size_b (queue s 1) + 1\<rparr>)\<rparr>)"
  using assms by (auto simp: pushHeap_def Let_def)


subsection \<open>Claim C7\<close>





subsection \<open>Claim C5\<close>









section \<open>The claims about \<open>launch\<close>\<close>

lemma append_pure_Nil: "append_pure [] s = s"
proof -
  have "(queue s)(1 := \<lparr>items_b = items_b (queue s 1), size_b = size_b (queue s 1)\<rparr>) = queue s"
    by (simp add: fun_eq_iff)
  then show ?thesis by (simp add: append_pure_def)
qed

lemma append_pure_append: "append_pure ys (append_pure xs s) = append_pure (xs @ ys) s"
  by (simp add: append_pure_def add.assoc)

lemma append_pure_size:
  "size_b (queue s 1) = length (items_b (queue s 1)) \<Longrightarrow>
   size_b (queue (append_pure xs s) 1) = length (items_b (queue (append_pure xs s) 1))"
  by (simp add: append_pure_def)

lemma seed_single:
  assumes "size_b (queue s 1) = length (items_b (queue s 1))"
  shows "pushFirstHeapItem Pure (getGraph g) None x s = Inr (append_pure [seed_layer g x] s)"
  using pushHeap_pure [OF assms]
  by (simp add: pushFirstHeapItem_def getGraph_def append_pure_def seed_layer_def)

lemma index_val_payload_at:
  "p \<noteq> Undefined \<Longrightarrow> p \<noteq> Null \<Longrightarrow> index_val p i = Inr (payload_at p i)"
  by (cases p) (simp_all add: payload_at_def)

lemma seed_units_eq:
  assumes "size_b (queue s 1) = length (items_b (queue s 1))" "p \<noteq> Undefined" "p \<noteq> Null"
  shows "seed_units gs i p s
     = Inr (append_pure (map (\<lambda>k. seed_layer (gs ! k) (payload_at p (i + k))) [0..<length gs]) s)"
  using assms(1)
proof (induction gs arbitrary: i s)
  case Nil
  then show ?case by (simp add: append_pure_Nil)
next
  case (Cons g gs)
  let ?s1 = "append_pure [seed_layer g (payload_at p i)] s"
  have 1: "pushFirstHeapItem Pure (getGraph g) None (payload_at p i) s = Inr ?s1"
    using seed_single [OF Cons.prems] .
  have 2: "size_b (queue ?s1 1) = length (items_b (queue ?s1 1))"
    using append_pure_size [OF Cons.prems] .
  have "seed_units (g # gs) i p s = seed_units gs (i + 1) p ?s1"
    using 1 index_val_payload_at [OF assms(2,3)] by simp
  also have "\<dots> = Inr (append_pure (map (\<lambda>k. seed_layer (gs ! k) (payload_at p (i + 1 + k))) [0..<length gs]) ?s1)"
    using Cons.IH [OF 2] .
  also have "\<dots> = Inr (append_pure (seed_layer g (payload_at p i) #
        map (\<lambda>k. seed_layer (gs ! k) (payload_at p (i + 1 + k))) [0..<length gs]) s)"
    by (simp add: append_pure_append)
  also have "seed_layer g (payload_at p i) # map (\<lambda>k. seed_layer (gs ! k) (payload_at p (i + 1 + k))) [0..<length gs]
     = map (\<lambda>k. seed_layer ((g # gs) ! k) (payload_at p (i + k))) [0..<length (g # gs)]"
  proof -
    have "[Suc 0..<Suc (length gs)] = map Suc [0..<length gs]" by (simp only: map_Suc_upt)
    then have "map (\<lambda>k. seed_layer ((g # gs) ! k) (payload_at p (i + k))) [Suc 0..<Suc (length gs)]
        = map (\<lambda>k. seed_layer (gs ! k) (payload_at p (i + 1 + k))) [0..<length gs]"
      by (simp only: map_map o_def) simp
    then show ?thesis by (simp add: upt_conv_Cons del: upt_Suc)
  qed
  finally show ?case .
qed

lemma seed_eq:
  assumes "size_b (queue s 1) = length (items_b (queue s 1))"
    and "\<forall>gs. tgt = Nodes gs \<longrightarrow> p \<noteq> Undefined \<and> p \<noteq> Null"
  shows "seed tgt p s = Inr (append_pure (seed_layers tgt p) s)"
proof (cases tgt)
  case (Node g)
  then show ?thesis using seed_single [OF assms(1)] by simp
next
  case (Nodes gs)
  then show ?thesis using seed_units_eq [OF assms(1), of p gs 0] assms(2) by simp
qed


subsection \<open>Claim C8\<close>




subsection \<open>Claim C6\<close>

lemma pushHeap_alreadyStarted: "pushHeap i st t d s = Inr s' \<Longrightarrow> alreadyStarted s' = alreadyStarted s"
  by (auto simp: pushHeap_def Let_def split: if_splits)

lemma seed_units_alreadyStarted: "seed_units gs i p s = Inr s' \<Longrightarrow> alreadyStarted s' = alreadyStarted s"
proof (induction gs arbitrary: i s)
  case Nil
  then show ?case by simp
next
  case (Cons g gs)
  then obtain x s1 where "pushFirstHeapItem Pure (getGraph g) None x s = Inr s1"
    "seed_units gs (i + 1) p s1 = Inr s'"
    by (auto split: sum.splits)
  then show ?case using Cons.IH pushHeap_alreadyStarted by (auto simp: pushFirstHeapItem_def)
qed

lemma seed_alreadyStarted: "seed t p s = Inr s' \<Longrightarrow> alreadyStarted s' = alreadyStarted s"
  by (cases t) (auto simp: seed_units_alreadyStarted pushFirstHeapItem_def dest: pushHeap_alreadyStarted)


text \<open>
  Claim C6, as stated, fails: a call of \<open>launch\<close> without \<open>upsert\<close> made while the
  flag \<open>alreadyStarted\<close> is set does enter the drain loop. Here the nested drain empties
  the queue, so the call does not return the state with the seeded layer queued.
\<close>

theorem C6_counterexample:
  "alreadyStarted (engine_init\<lparr>alreadyStarted := True\<rparr>)
   \<and> launch (Handle (Node ex_leaf)) Undefined False (engine_init\<lparr>alreadyStarted := True\<rparr>)
       \<noteq> Some (seed (Node ex_leaf) Undefined (engine_init\<lparr>alreadyStarted := True\<rparr>))"
proof -
  have 1: "queue_sizes (launch (Handle (Node ex_leaf)) Undefined False (engine_init\<lparr>alreadyStarted := True\<rparr>))
        = [0, 0, 0, 0, 0]" by code_simp
  have 2: "queue_sizes (Some (seed (Node ex_leaf) Undefined (engine_init\<lparr>alreadyStarted := True\<rparr>)))
        = [0, 1, 0, 0, 0]" by code_simp
  have "launch (Handle (Node ex_leaf)) Undefined False (engine_init\<lparr>alreadyStarted := True\<rparr>)
       \<noteq> Some (seed (Node ex_leaf) Undefined (engine_init\<lparr>alreadyStarted := True\<rparr>))"
  proof
    assume "launch (Handle (Node ex_leaf)) Undefined False (engine_init\<lparr>alreadyStarted := True\<rparr>)
       = Some (seed (Node ex_leaf) Undefined (engine_init\<lparr>alreadyStarted := True\<rparr>))"
    then have "queue_sizes (launch (Handle (Node ex_leaf)) Undefined False (engine_init\<lparr>alreadyStarted := True\<rparr>))
       = queue_sizes (Some (seed (Node ex_leaf) Undefined (engine_init\<lparr>alreadyStarted := True\<rparr>)))"
      by simp
    then show False unfolding 1 2 by simp
  qed
  then show ?thesis by simp
qed

text \<open>
  Claim C6, amended. For every call of \<open>launch\<close> made with \<open>upsert\<close> true (as an argument
  or as \<open>defer\<close> of a descriptor) while \<open>alreadyStarted\<close> is set, the call returns what
  the seeding returns, without a drain: the state with the seeded layers appended to the
  bucket of priority \<open>pure\<close>.
\<close>

theorem C6_launch_upsert:
  assumes "alreadyStarted s" "unpack arg payload0 upsert0 = (tgt, payload, True)"
  shows "launch arg payload0 upsert0 s = Some (seed tgt payload s)
       \<and> (size_b (queue s 1) = length (items_b (queue s 1))
            \<and> (\<forall>gs. tgt = Nodes gs \<longrightarrow> payload \<noteq> Undefined \<and> payload \<noteq> Null)
          \<longrightarrow> launch arg payload0 upsert0 s = Some (Inr (append_pure (seed_layers tgt payload) s)))"
proof -
  have 1: "launch arg payload0 upsert0 s = Some (seed tgt payload s)"
  proof (cases "seed tgt payload s")
    case (Inl e)
    then show ?thesis using assms(2) by (simp add: launch_def)
  next
    case (Inr s1)
    then have "alreadyStarted s1" using seed_alreadyStarted assms(1) by simp
    then show ?thesis using assms(2) Inr by (simp add: launch_def)
  qed
  then show ?thesis using seed_eq [of s tgt payload] by simp
qed


text \<open>The witness: a descriptor with \<open>defer\<close> true, while a drain is in progress.\<close>

theorem C6_launch_upsert_witness:
  "alreadyStarted (engine_init\<lparr>alreadyStarted := True\<rparr>)
   \<and> unpack (Descriptor (Node ex_leaf) (Num 1) True) Undefined False = (Node ex_leaf, Num 1, True)
   \<and> launch (Descriptor (Node ex_leaf) (Num 1) True) Undefined False (engine_init\<lparr>alreadyStarted := True\<rparr>)
       = Some (Inr (append_pure [seed_layer ex_leaf (Num 1)] (engine_init\<lparr>alreadyStarted := True\<rparr>)))"
proof -
  have 1: "alreadyStarted (engine_init\<lparr>alreadyStarted := True\<rparr>)" by simp
  have 2: "unpack (Descriptor (Node ex_leaf) (Num 1) True) Undefined False = (Node ex_leaf, Num 1, True)" by simp
  have 3: "size_b (queue (engine_init\<lparr>alreadyStarted := True\<rparr>) 1)
      = length (items_b (queue (engine_init\<lparr>alreadyStarted := True\<rparr>) 1))"
    by (simp add: engine_init_def)
  have 4: "\<forall>gs. Node ex_leaf = Nodes gs \<longrightarrow> Num 1 \<noteq> Undefined \<and> Num 1 \<noteq> Null" by simp
  have "launch (Descriptor (Node ex_leaf) (Num 1) True) Undefined False (engine_init\<lparr>alreadyStarted := True\<rparr>)
       = Some (Inr (append_pure (seed_layers (Node ex_leaf) (Num 1)) (engine_init\<lparr>alreadyStarted := True\<rparr>)))"
    using C6_launch_upsert [OF 1 2] 3 4 by blast
  then show ?thesis using 1 2 by simp
qed


end
